theory Spec2Isabelle
  imports Complex_Main "HOL-Library.Stream" "HOL-Library.Multiset"
begin

section \<open>Data model\<close>

text \<open>
  The walk buffer of the source is a numpy array with one row per axis and one column per
  step (\<^verbatim>\<open>np.zeros((2, size))\<close>, \<^verbatim>\<open>np.zeros((3, size))\<close>).  Every use of it
  goes through its columns (\<^verbatim>\<open>steps.T.tolist()\<close>, \<^verbatim>\<open>temp_steps[:, i] = j\<close>), so the
  buffer is modelled as the list of its columns: a list of lattice points.  The array shape
  fixes the number of coordinates of a point, so a point is a pair in \<^verbatim>\<open>main.py\<close> and a
  triple in \<^verbatim>\<open>3d.py\<close>.  All stored values are integer valued floats far below
  \<open>2^53\<close>; they are modelled as \<^typ>\<open>int\<close>.
\<close>

type_synonym point2 = "int \<times> int"
type_synonym point3 = "int \<times> int \<times> int"

text \<open>
  Exceptions that the modelled code can raise.  \<^verbatim>\<open>RecursionError\<close> is what the
  interpreter raises when a call would exceed its bound on nested calls.
\<close>

datatype error = ValueError | IndexError | RecursionError

text \<open>
  \<^verbatim>\<open>avoid_walk\<close> returns either the filled buffer or the boolean \<^verbatim>\<open>False\<close>.
\<close>

datatype 'p result = Walk "'p list" | DeadEnd

subsection \<open>Random sources\<close>

text \<open>
  The two generators (\<^verbatim>\<open>random\<close> and \<^verbatim>\<open>np.random\<close>) are global state of the run.
  Each is modelled as the infinite stream of raw draws it is going to deliver; a function that
  draws returns the rest of the stream.  Every behaviour of a real generator is the behaviour
  of the model on some stream.
\<close>

type_synonym rng = "nat stream"

text \<open>
  \<^verbatim>\<open>random.randint(a, b)\<close>: an integer of the inclusive range, \<^verbatim>\<open>ValueError\<close> when the
  range is empty.
\<close>

definition randint :: "int \<Rightarrow> int \<Rightarrow> rng \<Rightarrow> error + int \<times> rng" where
  "randint a b g =
     (if b < a then Inl ValueError
      else Inr (a + int (shd g mod nat (b - a + 1)), stl g))"

text \<open>
  \<^verbatim>\<open>np.random.shuffle(x)\<close> on a Python list: the library walks \<open>i\<close> from \<open>n - 1\<close> down to
  \<open>1\<close>, draws \<open>j\<close> from \<open>0..i\<close> and swaps \<open>x[i]\<close> with \<open>x[j]\<close>.
\<close>

fun shuffle_loop :: "nat \<Rightarrow> 'a list \<Rightarrow> rng \<Rightarrow> 'a list \<times> rng" where
  "shuffle_loop 0 x g = (x, g)"
| "shuffle_loop (Suc k) x g =
     (let i = Suc k;
          j = shd g mod (i + 1)
      in shuffle_loop k (x[i := x ! j, j := x ! i]) (stl g))"

definition shuffle :: "'a list \<Rightarrow> rng \<Rightarrow> 'a list \<times> rng" where
  "shuffle x g = shuffle_loop (length x - 1) x g"

section \<open>Walk search (\<^verbatim>\<open>avoid_walk\<close>, identical in both files)\<close>

text \<open>
  \<^verbatim>\<open>avoid_walk(self, steps, i)\<close>.  The method \<^verbatim>\<open>self.possible_steps\<close> is the only
  place where the two files differ, so it is the parameter \<open>ps\<close>.  The \<^verbatim>\<open>for\<close> loop over
  the candidates is \<open>try_steps\<close>; the generator state is threaded through every call, also
  through the calls that come back with \<^verbatim>\<open>False\<close>.  Writing column \<open>i\<close> of an array
  with fewer columns raises \<^verbatim>\<open>IndexError\<close>.

  \<open>avoid_walk\<close> is the search on a call stack without a bound; \<open>avoid_walk_limited\<close>
  below is the same search under the interpreter's bound on nested calls.  Whenever the
  bounded search returns a value, the unbounded one returns the same value (lemma
  \<open>limited_cases\<close>), so what is proved of the walks returned by \<open>avoid_walk\<close> holds of
  the walks the program returns.
\<close>

function avoid_walk ::
    "('p list \<Rightarrow> nat \<Rightarrow> rng \<Rightarrow> error + 'p list \<times> rng) \<Rightarrow> 'p list \<Rightarrow> nat \<Rightarrow> rng
       \<Rightarrow> error + 'p result \<times> rng"
  and try_steps ::
    "('p list \<Rightarrow> nat \<Rightarrow> rng \<Rightarrow> error + 'p list \<times> rng) \<Rightarrow> 'p list \<Rightarrow> nat \<Rightarrow> 'p list \<Rightarrow> rng
       \<Rightarrow> error + 'p result \<times> rng"
where
  "avoid_walk ps steps i g =
     (if i = length steps then Inr (Walk steps, g)
      else
        (case ps steps i g of
           Inl e \<Rightarrow> Inl e
         | Inr (poss_steps, g1) \<Rightarrow>
             if length poss_steps = 0 then Inr (DeadEnd, g1)
             else try_steps ps steps i poss_steps g1))"
| "try_steps ps steps i [] g = Inr (DeadEnd, g)"
| "try_steps ps steps i (j # js) g =
     (if length steps \<le> i then Inl IndexError
      else
        (let temp_steps = steps[i := j];
             temp_steps = (if i < length steps - 1
                           then temp_steps[i + 1 := temp_steps ! i]
                           else temp_steps)
         in (case avoid_walk ps temp_steps (i + 1) g of
               Inl e \<Rightarrow> Inl e
             | Inr (Walk w, g1) \<Rightarrow> Inr (Walk w, g1)
             | Inr (DeadEnd, g1) \<Rightarrow> try_steps ps steps i js g1)))"
  by pat_completeness auto

termination
  by (relation "measures
        [\<lambda>x. case x of
               Inl (ps, steps, i, g) \<Rightarrow> 2 * (length steps - i) + 2
             | Inr (ps, steps, i, js, g) \<Rightarrow> 2 * (length steps - i) + 1,
         \<lambda>x. case x of
               Inl (ps, steps, i, g) \<Rightarrow> 0
             | Inr (ps, steps, i, js, g) \<Rightarrow> length js]")
     auto

text \<open>
  \<^verbatim>\<open>avoid_walk\<close> under the interpreter's recursion limit.  The method calls itself once
  per step (line 64 of both files) and neither file changes the limit, so a walk of \<open>N\<close>
  points needs \<open>N\<close> nested activations.  \<open>d\<close> is the number of activations of
  \<^verbatim>\<open>avoid_walk\<close> that the limit still leaves room for, the one being entered included
  (CPython's default limit of 1000 leaves fewer than 1000 at the first call); a call with no
  room left raises \<^verbatim>\<open>RecursionError\<close>, which no frame of the program catches.  The loop
  over the candidates runs inside the activation that started it, so \<open>try_steps_limited\<close>
  keeps \<open>d\<close> and passes \<open>d - 1\<close> to the nested call.
\<close>

function avoid_walk_limited ::
    "nat \<Rightarrow> ('p list \<Rightarrow> nat \<Rightarrow> rng \<Rightarrow> error + 'p list \<times> rng) \<Rightarrow> 'p list \<Rightarrow> nat \<Rightarrow> rng
       \<Rightarrow> error + 'p result \<times> rng"
  and try_steps_limited ::
    "nat \<Rightarrow> ('p list \<Rightarrow> nat \<Rightarrow> rng \<Rightarrow> error + 'p list \<times> rng) \<Rightarrow> 'p list \<Rightarrow> nat \<Rightarrow> 'p list
       \<Rightarrow> rng \<Rightarrow> error + 'p result \<times> rng"
where
  "avoid_walk_limited d ps steps i g =
     (if d = 0 then Inl RecursionError
      else if i = length steps then Inr (Walk steps, g)
      else
        (case ps steps i g of
           Inl e \<Rightarrow> Inl e
         | Inr (poss_steps, g1) \<Rightarrow>
             if length poss_steps = 0 then Inr (DeadEnd, g1)
             else try_steps_limited d ps steps i poss_steps g1))"
| "try_steps_limited d ps steps i [] g = Inr (DeadEnd, g)"
| "try_steps_limited d ps steps i (j # js) g =
     (if length steps \<le> i then Inl IndexError
      else
        (let temp_steps = steps[i := j];
             temp_steps = (if i < length steps - 1
                           then temp_steps[i + 1 := temp_steps ! i]
                           else temp_steps)
         in (case avoid_walk_limited (d - 1) ps temp_steps (i + 1) g of
               Inl e \<Rightarrow> Inl e
             | Inr (Walk w, g1) \<Rightarrow> Inr (Walk w, g1)
             | Inr (DeadEnd, g1) \<Rightarrow> try_steps_limited d ps steps i js g1)))"
  by pat_completeness auto

termination
  by (relation "measures
        [\<lambda>x. case x of
               Inl (d, ps, steps, i, g) \<Rightarrow> 2 * (length steps - i) + 2
             | Inr (d, ps, steps, i, js, g) \<Rightarrow> 2 * (length steps - i) + 1,
         \<lambda>x. case x of
               Inl (d, ps, steps, i, g) \<Rightarrow> 0
             | Inr (d, ps, steps, i, js, g) \<Rightarrow> length js]")
     auto

section \<open>Region bound\<close>

text \<open>
  Python's \<^verbatim>\<open>round\<close> with one argument: nearest integer, ties to the even neighbour.
\<close>

definition py_round :: "real \<Rightarrow> int" where
  "py_round x =
     (let f = \<lfloor>x\<rfloor>; d = x - of_int f
      in if d < 1 / 2 then f
         else if 1 / 2 < d then f + 1
         else if even f then f else f + 1)"

text \<open>
  The first two lines of \<^verbatim>\<open>border\<close> in \<^verbatim>\<open>main.py\<close> and the body of \<^verbatim>\<open>set_max\<close>
  in \<^verbatim>\<open>3d.py\<close>.  The float64 root is modelled by the real root: a real square or cube root
  of an integer is never half way between two integers, and it stays further from that
  midpoint than the float64 error for every size a run can allocate, so both round to the same
  integer.  The products with \<open>1.75\<close> and the halving are exact in float64.
\<close>

definition h_length_2d :: "nat \<Rightarrow> int" where
  "h_length_2d sz =
     (let len = of_int (py_round (sqrt (real sz))) * 1.75
      in py_round (len / 2))"

definition set_max :: "nat \<Rightarrow> int" where
  "set_max sz =
     (let len = of_int (py_round (root 3 (real sz))) * 1.75;
          h_length = py_round (len / 2)
      in h_length)"

text \<open>
  The rest of \<^verbatim>\<open>border\<close>: the two coordinate rows of the ring around the region, side by
  side (top, right, bottom, left).
\<close>

definition border_ring :: "int \<Rightarrow> int list \<times> int list" where
  "border_ring h_length =
     (let x = [- h_length .. h_length];
          side_length = length x
      in (x @ replicate side_length h_length
            @ rev [- h_length .. h_length] @ replicate side_length (- h_length),
          replicate side_length h_length @ rev [- h_length .. h_length]
            @ replicate side_length (- h_length) @ [- h_length .. h_length]))"

definition border :: "nat \<Rightarrow> int list \<times> int list" where
  "border sz = border_ring (h_length_2d sz)"

text \<open>\<^verbatim>\<open>edge.T.tolist()\<close>: the rows of the ring turned into a list of points.\<close>

definition edge_points :: "int list \<times> int list \<Rightarrow> point2 list" where
  "edge_points edges = zip (fst edges) (snd edges)"

section \<open>Legal moves (\<^verbatim>\<open>possible_steps\<close>)\<close>

definition options_2d :: "point2 list" where
  "options_2d = [(0, 1), (0, -1), (1, 0), (-1, 0)]"

definition options_3d :: "point3 list" where
  "options_3d = [(0, 0, 1), (0, 0, -1), (0, 1, 0), (0, -1, 0), (1, 0, 0), (-1, 0, 0)]"

fun np_add_2d :: "point2 \<Rightarrow> point2 \<Rightarrow> point2" where
  "np_add_2d (a, b) (c, d) = (a + c, b + d)"

fun np_add_3d :: "point3 \<Rightarrow> point3 \<Rightarrow> point3" where
  "np_add_3d (a, b, c) (d, e, f) = (a + d, b + e, c + f)"

text \<open>
  \<^verbatim>\<open>possible_steps\<close> of \<^verbatim>\<open>main.py\<close>; \<open>edges\<close> and \<open>obs\<close> are the fields
  \<^verbatim>\<open>self.edges\<close> and \<^verbatim>\<open>self.obs_points\<close>.  Reading \<^verbatim>\<open>steps[i]\<close> beyond the last
  column raises \<^verbatim>\<open>IndexError\<close>.
\<close>

definition possible_steps_2d ::
    "int list \<times> int list \<Rightarrow> point2 list \<Rightarrow> point2 list \<Rightarrow> nat \<Rightarrow> rng
       \<Rightarrow> error + point2 list \<times> rng" where
  "possible_steps_2d edges obs steps i g =
     (if length steps \<le> i then Inl IndexError
      else
        (let edge = edge_points edges;
             possible_choices =
               filter (\<lambda>temp. temp \<notin> set steps \<and> temp \<notin> set edge \<and> temp \<notin> set obs)
                 (map (np_add_2d (steps ! i)) options_2d)
         in Inr (shuffle possible_choices g)))"

text \<open>
  \<^verbatim>\<open>possible_steps\<close> of \<^verbatim>\<open>3d.py\<close>; \<open>max_distance\<close> and \<open>obs\<close> are the fields
  \<^verbatim>\<open>self.max_distance\<close> and \<^verbatim>\<open>self.obs_points\<close>.
\<close>

definition possible_steps_3d ::
    "int \<Rightarrow> point3 list \<Rightarrow> point3 list \<Rightarrow> nat \<Rightarrow> rng \<Rightarrow> error + point3 list \<times> rng" where
  "possible_steps_3d max_distance obs steps i g =
     (if length steps \<le> i then Inl IndexError
      else
        (let possible_choices =
               filter (\<lambda>temp. temp \<notin> set steps
                           \<and> (case temp of (t0, t1, t2) \<Rightarrow>
                                 \<bar>t0\<bar> < max_distance \<and> \<bar>t1\<bar> < max_distance
                                   \<and> \<bar>t2\<bar> < max_distance)
                           \<and> temp \<notin> set obs)
                 (map (np_add_3d (steps ! i)) options_3d)
         in Inr (shuffle possible_choices g)))"

section \<open>Obstacle placement\<close>

text \<open>
  \<^verbatim>\<open>random_obstacle_placement\<close> retries without a bound, so it is a partial function:
  the value \<open>None\<close> stands for a chain of rejected samples that never ends.  In
  \<^verbatim>\<open>main.py\<close> the limit is read from the first entry of the first row of the border,
  which raises \<^verbatim>\<open>IndexError\<close> when the row is empty.
\<close>

partial_function (option) random_obstacle_placement_2d ::
    "int list \<times> int list \<Rightarrow> rng \<Rightarrow> (error + point2 \<times> rng) option" where
  "random_obstacle_placement_2d bord g =
     (if fst bord = [] then Some (Inl IndexError)
      else
        (let limit = - (fst bord ! 0)
         in (case randint (- limit) (limit - 4) g of
               Inl e \<Rightarrow> Some (Inl e)
             | Inr (origin0, g1) \<Rightarrow>
                 (case randint (- limit) (limit - 4) g1 of
                    Inl e \<Rightarrow> Some (Inl e)
                  | Inr (origin1, g2) \<Rightarrow>
                      if (0 \<ge> origin0 \<and> origin0 \<ge> - 4) \<and> (0 \<ge> origin1 \<and> origin1 \<ge> - 4)
                      then random_obstacle_placement_2d bord g2
                      else Some (Inr ((origin0, origin1), g2))))))"

partial_function (option) random_obstacle_placement_3d ::
    "int \<Rightarrow> rng \<Rightarrow> (error + point3 \<times> rng) option" where
  "random_obstacle_placement_3d mx g =
     (case randint (- mx) (mx - 4) g of
        Inl e \<Rightarrow> Some (Inl e)
      | Inr (origin0, g1) \<Rightarrow>
          (case randint (- mx) (mx - 4) g1 of
             Inl e \<Rightarrow> Some (Inl e)
           | Inr (origin1, g2) \<Rightarrow>
               (case randint (- mx) (mx - 4) g2 of
                  Inl e \<Rightarrow> Some (Inl e)
                | Inr (origin2, g3) \<Rightarrow>
                    if (0 \<ge> origin0 \<and> origin0 \<ge> - 4) \<and> (0 \<ge> origin1 \<and> origin1 \<ge> - 4)
                         \<and> (0 \<ge> origin2 \<and> origin2 \<ge> - 4)
                    then random_obstacle_placement_3d mx g3
                    else Some (Inr ((origin0, origin1, origin2), g3)))))"

text \<open>
  The coordinate rows of one block: the nested \<^verbatim>\<open>for j in range(4)\<close> loops that append to
  \<^verbatim>\<open>x\<close>, \<^verbatim>\<open>y\<close> (and \<^verbatim>\<open>z\<close>).
\<close>

definition block_2d :: "point2 \<Rightarrow> int list \<times> int list" where
  "block_2d origin =
     (concat (map (\<lambda>j. map (\<lambda>k. j + fst origin) [0 .. 3]) [0 .. 3]),
      concat (map (\<lambda>j. map (\<lambda>k. k + snd origin) [0 .. 3]) [0 .. 3]))"

definition block_3d :: "point3 \<Rightarrow> int list \<times> int list \<times> int list" where
  "block_3d origin =
     (concat (map (\<lambda>j. concat (map (\<lambda>k. map (\<lambda>l. j + fst origin) [0 .. 3]) [0 .. 3]))
        [0 .. 3]),
      concat (map (\<lambda>j. concat (map (\<lambda>k. map (\<lambda>l. k + fst (snd origin)) [0 .. 3]) [0 .. 3]))
        [0 .. 3]),
      concat (map (\<lambda>j. concat (map (\<lambda>k. map (\<lambda>l. l + snd (snd origin)) [0 .. 3]) [0 .. 3]))
        [0 .. 3]))"

text \<open>\<^verbatim>\<open>np.array(i).T.tolist()\<close>: the rows of a block turned into its list of cells.\<close>

definition cells_2d :: "int list \<times> int list \<Rightarrow> point2 list" where
  "cells_2d ob = zip (fst ob) (snd ob)"

definition cells_3d :: "int list \<times> int list \<times> int list \<Rightarrow> point3 list" where
  "cells_3d ob = zip (fst ob) (zip (fst (snd ob)) (snd (snd ob)))"

text \<open>
  The first loop of \<^verbatim>\<open>generate_obstacles\<close>: \<open>n\<close> placements, each appended to
  \<^verbatim>\<open>self.obstacles\<close>.
\<close>

fun place_blocks_2d ::
    "nat \<Rightarrow> int list \<times> int list \<Rightarrow> (int list \<times> int list) list \<Rightarrow> rng
       \<Rightarrow> (error + (int list \<times> int list) list \<times> rng) option" where
  "place_blocks_2d 0 bord obstacles g = Some (Inr (obstacles, g))"
| "place_blocks_2d (Suc n) bord obstacles g =
     (case random_obstacle_placement_2d bord g of
        None \<Rightarrow> None
      | Some (Inl e) \<Rightarrow> Some (Inl e)
      | Some (Inr (origin, g1)) \<Rightarrow>
          place_blocks_2d n bord (obstacles @ [block_2d origin]) g1)"

fun place_blocks_3d ::
    "nat \<Rightarrow> int \<Rightarrow> (int list \<times> int list \<times> int list) list \<Rightarrow> rng
       \<Rightarrow> (error + (int list \<times> int list \<times> int list) list \<times> rng) option" where
  "place_blocks_3d 0 max_distance obstacles g = Some (Inr (obstacles, g))"
| "place_blocks_3d (Suc n) max_distance obstacles g =
     (case random_obstacle_placement_3d max_distance g of
        None \<Rightarrow> None
      | Some (Inl e) \<Rightarrow> Some (Inl e)
      | Some (Inr (origin, g1)) \<Rightarrow>
          place_blocks_3d n max_distance (obstacles @ [block_3d origin]) g1)"

text \<open>
  \<^verbatim>\<open>generate_obstacles\<close>: the fields \<^verbatim>\<open>self.obstacles\<close> and \<^verbatim>\<open>self.obs_points\<close> come
  in and go out as a pair.  The second loop appends the cells of every block of
  \<^verbatim>\<open>self.obstacles\<close> to \<^verbatim>\<open>self.obs_points\<close>.
\<close>

definition generate_obstacles_2d ::
    "int list \<times> int list \<Rightarrow> nat \<Rightarrow> (int list \<times> int list) list \<times> point2 list \<Rightarrow> rng
       \<Rightarrow> (error + ((int list \<times> int list) list \<times> point2 list) \<times> rng) option" where
  "generate_obstacles_2d bord n st g =
     (if n \<noteq> 0 then
        (case place_blocks_2d n bord (fst st) g of
           None \<Rightarrow> None
         | Some (Inl e) \<Rightarrow> Some (Inl e)
         | Some (Inr (obstacles, g1)) \<Rightarrow>
             Some (Inr ((obstacles, snd st @ concat (map cells_2d obstacles)), g1)))
      else Some (Inr (st, g)))"

definition generate_obstacles_3d ::
    "int \<Rightarrow> nat \<Rightarrow> (int list \<times> int list \<times> int list) list \<times> point3 list \<Rightarrow> rng
       \<Rightarrow> (error + ((int list \<times> int list \<times> int list) list \<times> point3 list) \<times> rng) option" where
  "generate_obstacles_3d max_distance n st g =
     (if n > 0 then
        (case place_blocks_3d n max_distance (fst st) g of
           None \<Rightarrow> None
         | Some (Inl e) \<Rightarrow> Some (Inl e)
         | Some (Inr (obstacles, g1)) \<Rightarrow>
             Some (Inr ((obstacles, snd st @ concat (map cells_3d obstacles)), g1)))
      else Some (Inr (st, g)))"

section \<open>Construction (\<^verbatim>\<open>__init__\<close> and \<^verbatim>\<open>rand_avoid\<close>)\<close>

record RandomWalk =
  num_steps :: nat
  obs_points :: "point2 list"
  obstacles :: "(int list \<times> int list) list"
  edges :: "int list \<times> int list"
  walk :: "point2 result"

record RandomWalk3D =
  num_steps3 :: nat
  obs_points3 :: "point3 list"
  obstacles3 :: "(int list \<times> int list \<times> int list) list"
  max_distance :: int
  walk3 :: "point3 result"

text \<open>
  \<^verbatim>\<open>RandomWalk(size)\<close>: the constructor with \<^verbatim>\<open>rand_avoid\<close> inlined.  \<open>pg\<close> is the
  state of \<^verbatim>\<open>random\<close>, \<open>ng\<close> the state of \<^verbatim>\<open>np.random\<close>.  The fields start empty, the
  buffer is \<^verbatim>\<open>np.zeros((2, size))\<close>, three obstacles are requested, the search starts at
  index 1.  The search is taken on the unbounded stack here: the constructors are only
  examined at step count 1, where obstacle placement raises before the search is entered.
\<close>

definition new_RandomWalk :: "nat \<Rightarrow> rng \<Rightarrow> rng \<Rightarrow> (error + RandomWalk) option" where
  "new_RandomWalk sz pg ng =
     (let steps = replicate sz (0, 0);
          edge = border sz
      in (case generate_obstacles_2d edge 3 ([], []) pg of
            None \<Rightarrow> None
          | Some (Inl e) \<Rightarrow> Some (Inl e)
          | Some (Inr ((obsts, obs), pg1)) \<Rightarrow>
              (case avoid_walk (possible_steps_2d edge obs) steps 1 ng of
                 Inl e \<Rightarrow> Some (Inl e)
               | Inr (w, ng1) \<Rightarrow>
                   Some (Inr \<lparr>num_steps = sz, obs_points = obs,
                              obstacles = obsts, edges = edge, walk = w\<rparr>))))"

text \<open>\<^verbatim>\<open>RandomWalk3D(size)\<close>: two obstacles are requested.\<close>

definition new_RandomWalk3D :: "nat \<Rightarrow> rng \<Rightarrow> rng \<Rightarrow> (error + RandomWalk3D) option" where
  "new_RandomWalk3D sz pg ng =
     (let steps = replicate sz (0, 0, 0);
          mx = set_max sz
      in (case generate_obstacles_3d mx 2 ([], []) pg of
            None \<Rightarrow> None
          | Some (Inl e) \<Rightarrow> Some (Inl e)
          | Some (Inr ((obsts, obs), pg1)) \<Rightarrow>
              (case avoid_walk (possible_steps_3d mx obs) steps 1 ng of
                 Inl e \<Rightarrow> Some (Inl e)
               | Inr (w, ng1) \<Rightarrow>
                   Some (Inr \<lparr>num_steps3 = sz, obs_points3 = obs,
                              obstacles3 = obsts, max_distance = mx,
                              walk3 = w\<rparr>))))"

section \<open>Invariant of the search\<close>

text \<open>
  What the search keeps true of the buffer at index \<open>i\<close>: the committed prefix (the first
  \<open>i\<close> columns) has no repeated point, is a chain of \<open>step\<close>s, satisfies \<open>ok\<close>
  everywhere, and column \<open>i\<close> (when there is one) holds the placeholder copy of column
  \<open>i - 1\<close>.  \<open>cands_ok\<close> is what the invariant needs of a list of candidates.
\<close>

definition walk_inv :: "('p \<Rightarrow> 'p \<Rightarrow> bool) \<Rightarrow> ('p \<Rightarrow> bool) \<Rightarrow> 'p list \<Rightarrow> nat \<Rightarrow> bool" where
  "walk_inv step ok steps i \<longleftrightarrow>
     1 \<le> i \<and> i \<le> length steps \<and> distinct (take i steps) \<and> successively step (take i steps)
     \<and> list_all ok (take i steps) \<and> (i < length steps \<longrightarrow> steps ! i = steps ! (i - 1))"

definition cands_ok ::
  "('p \<Rightarrow> 'p \<Rightarrow> bool) \<Rightarrow> ('p \<Rightarrow> bool) \<Rightarrow> 'p list \<Rightarrow> nat \<Rightarrow> 'p list \<Rightarrow> bool" where
  "cands_ok step ok steps i cands \<longleftrightarrow>
     i < length steps \<and>
     (\<forall>c \<in> set cands. c \<notin> set steps \<and> step (steps ! i) c \<and> (ok (steps ! i) \<longrightarrow> ok c))"

text \<open>
  The buffer of a search that has walked \<open>k\<close> points along the line \<open>p 0, p 1, \<dots>\<close>:
  the committed points, the placeholder copy of the last one, and the untouched slots, which
  still hold \<open>p 0\<close>.
\<close>

definition line_state :: "(nat \<Rightarrow> 'p) \<Rightarrow> nat \<Rightarrow> nat \<Rightarrow> 'p list" where
  "line_state p N k =
     map p [0 ..< k] @ (if k < N then p (k - 1) # replicate (N - k - 1) (p 0) else [])"

section \<open>Properties stated by the specification\<close>


text \<open>
  A single lattice step: the two points differ by exactly one unit on exactly one axis and
  agree on the others.
\<close>

definition unit_step_2d :: "point2 \<Rightarrow> point2 \<Rightarrow> bool" where
  "unit_step_2d p q \<longleftrightarrow>
     (\<bar>fst q - fst p\<bar> = 1 \<and> snd q = snd p) \<or> (fst q = fst p \<and> \<bar>snd q - snd p\<bar> = 1)"

definition unit_step_3d :: "point3 \<Rightarrow> point3 \<Rightarrow> bool" where
  "unit_step_3d p q \<longleftrightarrow>
     (\<bar>fst q - fst p\<bar> = 1 \<and> fst (snd q) = fst (snd p) \<and> snd (snd q) = snd (snd p))
     \<or> (fst q = fst p \<and> \<bar>fst (snd q) - fst (snd p)\<bar> = 1 \<and> snd (snd q) = snd (snd p))
     \<or> (fst q = fst p \<and> fst (snd q) = fst (snd p) \<and> \<bar>snd (snd q) - snd (snd p)\<bar> = 1)"

section \<open>Rounding and roots\<close>

lemma py_round_eqI:
  assumes "of_int k - 1 / 2 < x" and "x < of_int k + 1 / 2"
  shows "py_round x = k"
proof (cases "of_int k \<le> x")
  case True
  then have f: "\<lfloor>x\<rfloor> = k" using assms by linarith
  then show ?thesis using assms by (simp add: py_round_def Let_def)
next
  case False
  then have f: "\<lfloor>x\<rfloor> = k - 1" using assms by linarith
  then show ?thesis using assms False by (simp add: py_round_def Let_def)
qed


lemma py_round_sqrt:
  assumes "0 < k" and "k * k - k < int n" and "int n \<le> k * k + k"
  shows "py_round (sqrt (real n)) = k"
proof (rule py_round_eqI)
  have a: "(of_int k - 1 / 2)\<^sup>2 = real_of_int (k * k - k) + 1 / 4"
    by (simp add: power2_eq_square algebra_simps)
  have "real_of_int (k * k - k) + 1 \<le> real n"
    using assms(2) by (metis of_int_of_nat_eq of_int_1 of_int_add of_int_le_iff zless_imp_add1_zle)
  then have "(of_int k - 1 / 2)\<^sup>2 < real n" using a by linarith
  then show "of_int k - 1 / 2 < sqrt (real n)" by (rule real_less_rsqrt)
  have b: "(of_int k + 1 / 2)\<^sup>2 = real_of_int (k * k + k) + 1 / 4"
    by (simp add: power2_eq_square algebra_simps)
  have "real n \<le> real_of_int (k * k + k)"
    using assms(3) by (metis of_int_le_iff of_int_of_nat_eq)
  then have "real n < (of_int k + 1 / 2)\<^sup>2" using b by linarith
  moreover have "0 \<le> real_of_int k + 1 / 2" using assms(1) by simp
  ultimately show "sqrt (real n) < of_int k + 1 / 2" by (intro real_less_lsqrt) auto
qed

lemma py_round_cbrt:
  assumes "0 < k" and "(2 * k - 1) ^ 3 < 8 * int n" and "8 * int n < (2 * k + 1) ^ 3"
  shows "py_round (root 3 (real n)) = k"
proof (rule py_round_eqI)
  have lo: "(of_int k - 1 / 2 :: real) ^ 3 = real_of_int ((2 * k - 1) ^ 3) / 8"
    by (simp add: power3_eq_cube algebra_simps)
  have hi: "(of_int k + 1 / 2 :: real) ^ 3 = real_of_int ((2 * k + 1) ^ 3) / 8"
    by (simp add: power3_eq_cube algebra_simps)
  have "real_of_int ((2 * k - 1) ^ 3) < real_of_int (8 * int n)"
    using assms(2) by (simp only: of_int_less_iff)
  then have "(of_int k - 1 / 2 :: real) ^ 3 < real n" unfolding lo by simp
  then have "root 3 ((of_int k - 1 / 2 :: real) ^ 3) < root 3 (real n)"
    by (simp only: real_root_less_iff[of 3] zero_less_numeral)
  moreover have "root 3 ((of_int k - 1 / 2 :: real) ^ 3) = of_int k - 1 / 2"
    by (rule odd_real_root_power_cancel) simp
  ultimately show "of_int k - 1 / 2 < root 3 (real n)" by simp
  have "real_of_int (8 * int n) < real_of_int ((2 * k + 1) ^ 3)"
    using assms(3) by (simp only: of_int_less_iff)
  then have "real n < (of_int k + 1 / 2 :: real) ^ 3" unfolding hi by simp
  then have "root 3 (real n) < root 3 ((of_int k + 1 / 2 :: real) ^ 3)"
    by (simp only: real_root_less_iff[of 3] zero_less_numeral)
  moreover have "root 3 ((of_int k + 1 / 2 :: real) ^ 3) = of_int k + 1 / 2"
    by (rule odd_real_root_power_cancel) simp
  ultimately show "root 3 (real n) < of_int k + 1 / 2" by simp
qed


section \<open>Obstacle placement: accepted origins\<close>

lemma upto_0_3: "[0 .. 3] = [0, 1, 2, 3::int]"
  by (simp add: upto_rec1)

lemma rop2_accept_aux:
  assumes "random_obstacle_placement_2d bord g = Some r"
  shows "\<forall>p g'. r = Inr (p, g') \<longrightarrow>
           \<not> ((- 4 \<le> fst p \<and> fst p \<le> 0) \<and> (- 4 \<le> snd p \<and> snd p \<le> 0))"
proof (rule random_obstacle_placement_2d.raw_induct
    [where P = "\<lambda>b g r. \<forall>p g'. r = Inr (p, g') \<longrightarrow>
           \<not> ((- 4 \<le> fst p \<and> fst p \<le> 0) \<and> (- 4 \<le> snd p \<and> snd p \<le> 0))", OF _ assms],
    goal_cases)
  case (1 rop bord g r)
  then show ?case
    by (auto simp: Let_def split: if_splits sum.splits prod.splits)
qed

lemma rop3_accept_aux:
  assumes "random_obstacle_placement_3d mx g = Some r"
  shows "\<forall>p g'. r = Inr (p, g') \<longrightarrow>
        \<not> ((- 4 \<le> fst p \<and> fst p \<le> 0) \<and> (- 4 \<le> fst (snd p) \<and> fst (snd p) \<le> 0)
            \<and> (- 4 \<le> snd (snd p) \<and> snd (snd p) \<le> 0))"
proof (rule random_obstacle_placement_3d.raw_induct
    [where P = "\<lambda>b g r. \<forall>p g'. r = Inr (p, g') \<longrightarrow>
        \<not> ((- 4 \<le> fst p \<and> fst p \<le> 0) \<and> (- 4 \<le> fst (snd p) \<and> fst (snd p) \<le> 0)
            \<and> (- 4 \<le> snd (snd p) \<and> snd (snd p) \<le> 0))", OF _ assms],
    goal_cases)
  case (1 rop mx g r)
  then show ?case
    by (auto simp: Let_def split: if_splits sum.splits prod.splits)
qed

lemma block_2d_origin_free:
  assumes "\<not> ((- 4 \<le> fst p \<and> fst p \<le> 0) \<and> (- 4 \<le> snd p \<and> snd p \<le> 0))"
  shows "(0, 0) \<notin> set (cells_2d (block_2d p))"
proof -
  obtain a b where p: "p = (a, b)" by (cases p) auto
  show ?thesis using assms unfolding p
    by (auto simp: cells_2d_def block_2d_def upto_0_3)
qed

lemma block_3d_origin_free:
  assumes "\<not> ((- 4 \<le> fst p \<and> fst p \<le> 0) \<and> (- 4 \<le> fst (snd p) \<and> fst (snd p) \<le> 0)
            \<and> (- 4 \<le> snd (snd p) \<and> snd (snd p) \<le> 0))"
  shows "(0, 0, 0) \<notin> set (cells_3d (block_3d p))"
proof -
  obtain a b c where p: "p = (a, b, c)" by (cases p) auto
  show ?thesis using assms unfolding p
    by (auto simp: cells_3d_def block_3d_def upto_0_3)
qed

lemma place_blocks_2d_free:
  "place_blocks_2d n bord obsts g = Some (Inr (obsts', g')) \<Longrightarrow>
   \<forall>ob \<in> set obsts. (0, 0) \<notin> set (cells_2d ob) \<Longrightarrow>
   \<forall>ob \<in> set obsts'. (0, 0) \<notin> set (cells_2d ob)"
proof (induction n arbitrary: obsts g)
  case 0
  then show ?case by simp
next
  case (Suc n)
  from Suc.prems(1) obtain p g1 where
    r: "random_obstacle_placement_2d bord g = Some (Inr (p, g1))" and
    rest: "place_blocks_2d n bord (obsts @ [block_2d p]) g1 = Some (Inr (obsts', g'))"
    by (auto split: option.splits sum.splits)
  from rop2_accept_aux[OF r] have "(0, 0) \<notin> set (cells_2d (block_2d p))"
    by (intro block_2d_origin_free) simp
  with Suc.prems(2) have "\<forall>ob \<in> set (obsts @ [block_2d p]). (0, 0) \<notin> set (cells_2d ob)"
    by simp
  from Suc.IH[OF rest this] show ?case .
qed

lemma place_blocks_3d_free:
  "place_blocks_3d n mx obsts g = Some (Inr (obsts', g')) \<Longrightarrow>
   \<forall>ob \<in> set obsts. (0, 0, 0) \<notin> set (cells_3d ob) \<Longrightarrow>
   \<forall>ob \<in> set obsts'. (0, 0, 0) \<notin> set (cells_3d ob)"
proof (induction n arbitrary: obsts g)
  case 0
  then show ?case by simp
next
  case (Suc n)
  from Suc.prems(1) obtain p g1 where
    r: "random_obstacle_placement_3d mx g = Some (Inr (p, g1))" and
    rest: "place_blocks_3d n mx (obsts @ [block_3d p]) g1 = Some (Inr (obsts', g'))"
    by (auto split: option.splits sum.splits)
  from rop3_accept_aux[OF r] have "(0, 0, 0) \<notin> set (cells_3d (block_3d p))"
    by (intro block_3d_origin_free) simp
  with Suc.prems(2) have "\<forall>ob \<in> set (obsts @ [block_3d p]). (0, 0, 0) \<notin> set (cells_3d ob)"
    by simp
  from Suc.IH[OF rest this] show ?case .
qed

lemma generate_obstacles_2d_free:
  assumes "generate_obstacles_2d bord n ([], []) g = Some (Inr ((obsts, obs), g'))"
  shows "(0, 0) \<notin> set obs \<and> (\<forall>ob \<in> set obsts. (0, 0) \<notin> set (cells_2d ob))"
proof (cases "n = 0")
  case True
  with assms show ?thesis by (simp add: generate_obstacles_2d_def)
next
  case False
  with assms have pb: "place_blocks_2d n bord [] g = Some (Inr (obsts, g'))"
    and obs: "obs = concat (map cells_2d obsts)"
    by (auto simp: generate_obstacles_2d_def split: option.splits sum.splits)
  from place_blocks_2d_free[OF pb] have "\<forall>ob \<in> set obsts. (0, 0) \<notin> set (cells_2d ob)" by simp
  then show ?thesis by (auto simp: obs)
qed

lemma generate_obstacles_3d_free:
  assumes "generate_obstacles_3d mx n ([], []) g = Some (Inr ((obsts, obs), g'))"
  shows "(0, 0, 0) \<notin> set obs \<and> (\<forall>ob \<in> set obsts. (0, 0, 0) \<notin> set (cells_3d ob))"
proof (cases "n = 0")
  case True
  with assms show ?thesis by (simp add: generate_obstacles_3d_def)
next
  case False
  with assms have pb: "place_blocks_3d n mx [] g = Some (Inr (obsts, g'))"
    and obs: "obs = concat (map cells_3d obsts)"
    by (auto simp: generate_obstacles_3d_def split: option.splits sum.splits)
  from place_blocks_3d_free[OF pb] have "\<forall>ob \<in> set obsts. (0, 0, 0) \<notin> set (cells_3d ob)" by simp
  then show ?thesis by (auto simp: obs)
qed

lemma rop2_small:
  assumes "H < 2"
  shows "random_obstacle_placement_2d (border_ring H) g =
           Some (Inl (if 0 \<le> H then ValueError else IndexError))"
proof (cases "0 \<le> H")
  case True
  then obtain xs where xs: "[- H .. H] = - H # xs" by (simp add: upto_rec1)
  show ?thesis using assms True
    by (subst random_obstacle_placement_2d.simps) (simp add: border_ring_def Let_def xs randint_def)
next
  case False
  then have "[- H .. H] = []" by simp
  then show ?thesis using False
    by (subst random_obstacle_placement_2d.simps) (simp add: border_ring_def Let_def)
qed

lemma rop3_small: "H < 2 \<Longrightarrow> random_obstacle_placement_3d H g = Some (Inl ValueError)"
  by (subst random_obstacle_placement_3d.simps) (simp add: randint_def Let_def)

lemma gen2_small:
  assumes "H < 2" "1 \<le> n"
  shows "generate_obstacles_2d (border_ring H) n st g =
           Some (Inl (if 0 \<le> H then ValueError else IndexError))"
proof -
  from assms(2) obtain m where n: "n = Suc m" by (cases n) auto
  show ?thesis unfolding n generate_obstacles_2d_def
    by (simp add: rop2_small[OF assms(1)])
qed

lemma gen3_small:
  assumes "H < 2" "1 \<le> n"
  shows "generate_obstacles_3d H n st g = Some (Inl ValueError)"
proof -
  from assms(2) obtain m where n: "n = Suc m" by (cases n) auto
  show ?thesis unfolding n generate_obstacles_3d_def
    by (simp add: rop3_small[OF assms(1)])
qed

section \<open>The shuffle permutes, the search keeps its invariant\<close>

lemma shuffle_loop_mset:
  "k < length x \<Longrightarrow> mset (fst (shuffle_loop k x g)) = mset x"
proof (induction k arbitrary: x g)
  case 0
  then show ?case by simp
next
  case (Suc k)
  have j: "shd g mod (Suc k + 1) < length x"
    using Suc.prems by (metis Suc_eq_plus1 less_Suc_eq_le less_le_trans mod_less_divisor not_less_eq zero_less_Suc order_less_le_trans)
  have "mset (x[Suc k := x ! (shd g mod (Suc k + 1)), shd g mod (Suc k + 1) := x ! Suc k]) = mset x"
    using Suc.prems j by (simp add: mset_swap)
  moreover have "k < length (x[Suc k := x ! (shd g mod (Suc k + 1)), shd g mod (Suc k + 1) := x ! Suc k])"
    using Suc.prems by simp
  ultimately show ?case using Suc.IH by (simp add: Let_def)
qed

lemma shuffle_mset: "mset (fst (shuffle x g)) = mset x"
proof (cases "x = []")
  case True
  then show ?thesis by (simp add: shuffle_def)
next
  case False
  then have "length x - 1 < length x" by simp
  then show ?thesis unfolding shuffle_def by (rule shuffle_loop_mset)
qed

lemma shuffle_set: "set (fst (shuffle x g)) = set x"
  using shuffle_mset[of x g] by (metis set_mset_mset)

lemma shuffle_length: "length (fst (shuffle x g)) = length x"
  using shuffle_mset[of x g] by (metis size_mset)

lemma walk_inv_commit:
  assumes inv: "walk_inv step ok steps i" and i: "i < length steps"
    and c: "c \<notin> set steps" "step (steps ! i) c" "ok (steps ! i) \<longrightarrow> ok c"
  defines "t \<equiv> (if i < length steps - 1 then (steps[i := c])[i + 1 := (steps[i := c]) ! i]
                 else steps[i := c])"
  shows "walk_inv step ok t (i + 1)" and "length t = length steps" and "t ! 0 = steps ! 0"
proof -
  from inv have i1: "1 \<le> i" and d: "distinct (take i steps)"
    and s: "successively step (take i steps)" and a: "list_all ok (take i steps)"
    and ph: "steps ! i = steps ! (i - 1)"
    using i by (auto simp: walk_inv_def)
  show len: "length t = length steps" by (simp add: t_def)
  show "t ! 0 = steps ! 0" using i1 by (simp add: t_def)
  have tk: "take (Suc i) t = take i steps @ [c]"
    using i by (simp add: t_def take_Suc_conv_app_nth)
  have ne: "take i steps \<noteq> []" using i1 i by auto
  have lst: "last (take i steps) = steps ! (i - 1)"
    using i1 i ne by (simp add: last_conv_nth)
  have mem: "steps ! (i - 1) \<in> set (take i steps)"
    using lst ne last_in_set by metis
  have okc: "ok c" using a mem c(3) ph by (simp add: list_all_iff)
  have "c \<notin> set (take i steps)" using c(1) by (meson in_set_takeD)
  then have d': "distinct (take (Suc i) t)" using d unfolding tk by simp
  have s': "successively step (take (Suc i) t)"
    unfolding tk using s c(2) ph lst by (simp add: successively_append_iff)
  have a': "list_all ok (take (Suc i) t)" unfolding tk using a okc by simp
  have ph': "Suc i < length t \<longrightarrow> t ! Suc i = t ! i"
    using i by (auto simp: t_def)
  show "walk_inv step ok t (i + 1)"
    unfolding walk_inv_def using d' s' a' ph' i len by simp
qed

lemma avoid_walk_good:
  "(\<And>steps i g cands g1. ps steps i g = Inr (cands, g1) \<Longrightarrow> cands_ok step ok steps i cands) \<Longrightarrow>
   avoid_walk ps steps i g = Inr (Walk w, g') \<Longrightarrow> walk_inv step ok steps i \<Longrightarrow>
           length w = length steps \<and> w ! 0 = steps ! 0 \<and> distinct w \<and> successively step w
             \<and> list_all ok w"
  and "(\<And>steps i g cands g1. ps steps i g = Inr (cands, g1) \<Longrightarrow> cands_ok step ok steps i cands) \<Longrightarrow>
   try_steps ps steps i js g = Inr (Walk w, g') \<Longrightarrow> walk_inv step ok steps i \<Longrightarrow>
           cands_ok step ok steps i js \<Longrightarrow>
           length w = length steps \<and> w ! 0 = steps ! 0 \<and> distinct w \<and> successively step w
             \<and> list_all ok w"
proof (induction ps steps i g and ps steps i js g arbitrary: w g' and w g'
    rule: avoid_walk_try_steps.induct)
  case (1 ps steps i g)
  note psok = "1.prems"(1) and run = "1.prems"(2) and inv = "1.prems"(3)
  show ?case
  proof (cases "i = length steps")
    case True
    with run inv show ?thesis by (auto simp: walk_inv_def)
  next
    case False
    with run obtain cands g1 where
      p: "ps steps i g = Inr (cands, g1)" and ne: "length cands \<noteq> 0"
      and t: "try_steps ps steps i cands g1 = Inr (Walk w, g')"
      by (auto split: sum.splits prod.splits if_splits)
    from psok[OF p] have co: "cands_ok step ok steps i cands" .
    show ?thesis
      by (rule "1.IH"[OF False p refl ne psok t inv co])
  qed
next
  case (2 ps steps i g)
  then show ?case by simp
next
  case (3 ps steps i j js g)
  note psok = "3.prems"(1) and run = "3.prems"(2) and inv = "3.prems"(3) and cok = "3.prems"(4)
  from cok have i: "i < length steps"
    and cj: "j \<notin> set steps" "step (steps ! i) j" "ok (steps ! i) \<longrightarrow> ok j"
    and cjs: "cands_ok step ok steps i js"
    by (auto simp: cands_ok_def)
  define t where "t = (if i < length steps - 1 then (steps[i := j])[i + 1 := (steps[i := j]) ! i]
                 else steps[i := j])"
  have inv': "walk_inv step ok t (i + 1)" and len: "length t = length steps"
    and t0: "t ! 0 = steps ! 0"
    using walk_inv_commit[OF inv i cj] unfolding t_def by auto
  have nle: "\<not> length steps \<le> i" using i by simp
  show ?case
  proof (cases "avoid_walk ps t (i + 1) g")
    case (Inl e)
    with run nle show ?thesis by (simp add: Let_def t_def)
  next
    case (Inr r)
    obtain res g1 where r: "r = (res, g1)" by (cases r)
    show ?thesis
    proof (cases res)
      case (Walk w')
      with Inr r run nle have "w' = w" "g1 = g'" by (simp_all add: Let_def t_def)
      with Inr r Walk have aw: "avoid_walk ps t (i + 1) g = Inr (Walk w, g')" by simp
      have "length w = length t \<and> w ! 0 = t ! 0 \<and> distinct w \<and> successively step w
             \<and> list_all ok w"
        using "3.IH"(1)[OF nle refl refl psok aw[unfolded t_def] inv'[unfolded t_def]]
        unfolding t_def .
      then show ?thesis using len t0 by simp
    next
      case DeadEnd
      with Inr r have aw: "avoid_walk ps t (i + 1) g = Inr (DeadEnd, g1)" by simp
      with run nle have ts: "try_steps ps steps i js g1 = Inr (Walk w, g')"
        by (simp add: Let_def t_def)
      show ?thesis
        by (rule "3.IH"(2)[OF nle refl refl aw[unfolded t_def] refl refl psok ts inv cjs])
    qed
  qed
qed

section \<open>The bound at concrete step counts\<close>

lemma h_length_2d_eq:
  assumes "0 < k" and "k * k - k < int n" and "int n \<le> k * k + k"
  shows "h_length_2d n = py_round (of_int k * 1.75 / 2)"
  unfolding h_length_2d_def Let_def py_round_sqrt[OF assms] ..

lemma set_max_eq:
  assumes "0 < k" and "(2 * k - 1) ^ 3 < 8 * int n" and "8 * int n < (2 * k + 1) ^ 3"
  shows "set_max n = py_round (of_int k * 1.75 / 2)"
  unfolding set_max_def Let_def py_round_cbrt[OF assms] ..

lemma h_length_2d_225: "h_length_2d 225 = 13"
proof -
  have "h_length_2d 225 = py_round (of_int 15 * 1.75 / 2)" by (rule h_length_2d_eq) simp_all
  also have "\<dots> = 13" by (rule py_round_eqI) simp_all
  finally show ?thesis .
qed

lemma set_max_225: "set_max 225 = 5"
proof -
  have "set_max 225 = py_round (of_int 6 * 1.75 / 2)" by (rule set_max_eq) simp_all
  also have "\<dots> = 5" by (rule py_round_eqI) simp_all
  finally show ?thesis .
qed

lemma h_length_2d_1: "h_length_2d 1 = 1"
proof -
  have "h_length_2d 1 = py_round (of_int 1 * 1.75 / 2)" by (rule h_length_2d_eq) simp_all
  also have "\<dots> = 1" by (rule py_round_eqI) simp_all
  finally show ?thesis .
qed

lemma set_max_1: "set_max 1 = 1"
proof -
  have "set_max 1 = py_round (of_int 1 * 1.75 / 2)" by (rule set_max_eq) simp_all
  also have "\<dots> = 1" by (rule py_round_eqI) simp_all
  finally show ?thesis .
qed






section \<open>Claims about the region bound\<close>

text \<open>
  Claim C8.  For the step count 225 the computed half-width is 13 in \<^verbatim>\<open>main.py\<close>
  (the square root is 15, \<open>15 * 1.75 / 2 = 13.125\<close>) and 5 in \<^verbatim>\<open>3d.py\<close> (the cube
  root rounds to 6, \<open>6 * 1.75 / 2 = 5.25\<close>).
\<close>

theorem bound_at_225: "h_length_2d 225 = 13 \<and> set_max 225 = 5"
  using h_length_2d_225 set_max_225 by simp




section \<open>Claims about obstacle placement\<close>

text \<open>
  Claim C10.  For every half-width \<open>H < 2\<close> and every requested obstacle count of at
  least one, obstacle placement raises an exception: it neither returns obstacles nor
  retries.  The sample range \<open>[-H, H - 4]\<close> is empty, so \<^verbatim>\<open>random.randint\<close> raises
  \<^verbatim>\<open>ValueError\<close>; in \<^verbatim>\<open>main.py\<close> a negative \<open>H\<close> (which the bound calculation never
  produces) has an empty border row, and reading its first entry raises \<^verbatim>\<open>IndexError\<close>
  before the sample is drawn.
\<close>

theorem placement_fails_below_2:
  "H < 2 \<and> 1 \<le> n \<longrightarrow>
     generate_obstacles_2d (border_ring H) n st g
       = Some (Inl (if 0 \<le> H then ValueError else IndexError))
     \<and> generate_obstacles_3d H n st3 g3 = Some (Inl ValueError)"
  using gen2_small gen3_small by blast

theorem placement_fails_below_2_witness:
  "((1::int) < 2 \<and> (1::nat) \<le> 3)
   \<and> generate_obstacles_2d (border_ring 1) 3 ([], []) (sconst 0) = Some (Inl ValueError)
   \<and> generate_obstacles_3d 1 3 ([], []) (sconst 0) = Some (Inl ValueError)"
  using placement_fails_below_2[of 1 3 "([], [])" "sconst 0" "([], [])" "sconst 0"] by simp

text \<open>Two runs of the placer on the constant stream: the first sample is accepted.\<close>

lemma border_ring_5_hd: "fst (border_ring 5) \<noteq> [] \<and> fst (border_ring 5) ! 0 = - 5"
  by (simp add: border_ring_def Let_def upto_rec1)

lemma rop2_run: "random_obstacle_placement_2d (border_ring 5) (sconst 0) = Some (Inr ((- 5, - 5), sconst 0))"
  by (subst random_obstacle_placement_2d.simps) (simp add: border_ring_5_hd randint_def Let_def)

lemma rop3_run: "random_obstacle_placement_3d 5 (sconst 0) = Some (Inr ((- 5, - 5, - 5), sconst 0))"
  by (subst random_obstacle_placement_3d.simps) (simp add: randint_def Let_def)

lemma gen2_run:
  "generate_obstacles_2d (border_ring 5) 1 ([], []) (sconst 0)
     = Some (Inr (([block_2d (- 5, - 5)], cells_2d (block_2d (- 5, - 5))), sconst 0))"
  by (simp add: generate_obstacles_2d_def rop2_run)

lemma gen3_run:
  "generate_obstacles_3d 5 1 ([], []) (sconst 0)
     = Some (Inr (([block_3d (- 5, - 5, - 5)], cells_3d (block_3d (- 5, - 5, - 5))), sconst 0))"
  by (simp add: generate_obstacles_3d_def rop3_run)

text \<open>
  Claim C6.  No placement origin accepted by the placer has every coordinate in
  \<open>[-4, 0]\<close>, and no occupied-cell set it generates (neither the flattened list nor the
  cells of any single obstacle) contains the all-zero origin point, in both files.
\<close>

theorem placer_keeps_origin_free:
  "(random_obstacle_placement_2d bord g = Some (Inr ((o0, o1), g'))
      \<longrightarrow> \<not> ((- 4 \<le> o0 \<and> o0 \<le> 0) \<and> (- 4 \<le> o1 \<and> o1 \<le> 0)))
   \<and> (generate_obstacles_2d bord n ([], []) h = Some (Inr ((obsts, obs), h'))
      \<longrightarrow> (0, 0) \<notin> set obs \<and> (\<forall>ob \<in> set obsts. (0, 0) \<notin> set (cells_2d ob)))
   \<and> (random_obstacle_placement_3d mx g3 = Some (Inr ((p0, p1, p2), g3'))
      \<longrightarrow> \<not> ((- 4 \<le> p0 \<and> p0 \<le> 0) \<and> (- 4 \<le> p1 \<and> p1 \<le> 0) \<and> (- 4 \<le> p2 \<and> p2 \<le> 0)))
   \<and> (generate_obstacles_3d mx m ([], []) h3 = Some (Inr ((obsts3, obs3), h3'))
      \<longrightarrow> (0, 0, 0) \<notin> set obs3 \<and> (\<forall>ob \<in> set obsts3. (0, 0, 0) \<notin> set (cells_3d ob)))"
proof (intro conjI impI)
  assume "random_obstacle_placement_2d bord g = Some (Inr ((o0, o1), g'))"
  from rop2_accept_aux[OF this]
  show "\<not> ((- 4 \<le> o0 \<and> o0 \<le> 0) \<and> (- 4 \<le> o1 \<and> o1 \<le> 0))" by simp
next
  assume "random_obstacle_placement_3d mx g3 = Some (Inr ((p0, p1, p2), g3'))"
  from rop3_accept_aux[OF this]
  show "\<not> ((- 4 \<le> p0 \<and> p0 \<le> 0) \<and> (- 4 \<le> p1 \<and> p1 \<le> 0) \<and> (- 4 \<le> p2 \<and> p2 \<le> 0))"
    by simp
next
  assume a: "generate_obstacles_2d bord n ([], []) h = Some (Inr ((obsts, obs), h'))"
  from generate_obstacles_2d_free[OF a] show "(0, 0) \<notin> set obs" by simp
  from generate_obstacles_2d_free[OF a] show "\<forall>ob \<in> set obsts. (0, 0) \<notin> set (cells_2d ob)"
    by simp
next
  assume a: "generate_obstacles_3d mx m ([], []) h3 = Some (Inr ((obsts3, obs3), h3'))"
  from generate_obstacles_3d_free[OF a] show "(0, 0, 0) \<notin> set obs3" by simp
  from generate_obstacles_3d_free[OF a]
  show "\<forall>ob \<in> set obsts3. (0, 0, 0) \<notin> set (cells_3d ob)" by simp
qed

theorem placer_keeps_origin_free_witness:
  "random_obstacle_placement_2d (border_ring 5) (sconst 0) = Some (Inr ((- 5, - 5), sconst 0))
   \<and> generate_obstacles_2d (border_ring 5) 1 ([], []) (sconst 0)
        = Some (Inr (([block_2d (- 5, - 5)], cells_2d (block_2d (- 5, - 5))), sconst 0))
   \<and> (0, 0) \<notin> set (cells_2d (block_2d (- 5, - 5)))
   \<and> random_obstacle_placement_3d 5 (sconst 0) = Some (Inr ((- 5, - 5, - 5), sconst 0))
   \<and> generate_obstacles_3d 5 1 ([], []) (sconst 0)
        = Some (Inr (([block_3d (- 5, - 5, - 5)], cells_3d (block_3d (- 5, - 5, - 5))), sconst 0))
   \<and> (0, 0, 0) \<notin> set (cells_3d (block_3d (- 5, - 5, - 5)))"
  using placer_keeps_origin_free[of "border_ring 5" "sconst 0" "- 5" "- 5" "sconst 0" 1 "sconst 0"
      "[block_2d (- 5, - 5)]" "cells_2d (block_2d (- 5, - 5))" "sconst 0"
      5 "sconst 0" "- 5" "- 5" "- 5" "sconst 0" 1 "sconst 0"
      "[block_3d (- 5, - 5, - 5)]" "cells_3d (block_3d (- 5, - 5, - 5))" "sconst 0"]
  by (simp add: rop2_run rop3_run gen2_run[unfolded One_nat_def] gen3_run[unfolded One_nat_def])

section \<open>Claims about a walk of one step\<close>

text \<open>
  Claim C9, as stated: constructing a walk with step count 1 returns a walk that holds only
  the origin.  It fails: for one step the half-width is 1, the placer's sample range
  \<open>[-1, -3]\<close> is empty, and the constructor raises \<^verbatim>\<open>ValueError\<close> before the search
  is called, in both files.
\<close>

theorem construct_one_step_cex:
  "new_RandomWalk 1 (sconst 0) (sconst 0) = Some (Inl ValueError)
   \<and> new_RandomWalk3D 1 (sconst 0) (sconst 0) = Some (Inl ValueError)"
  by (simp add: new_RandomWalk_def new_RandomWalk3D_def Let_def border_def
      h_length_2d_1[unfolded One_nat_def] set_max_1[unfolded One_nat_def] gen2_small gen3_small)

text \<open>
  Claim C9, amended: the search on a buffer of one column returns that buffer, which holds
  only the origin (the base case fires at index 1, no move is taken, the generator state is
  untouched); the constructors with step count 1 raise \<^verbatim>\<open>ValueError\<close> in obstacle
  placement and never reach the search, whatever the generators deliver.
\<close>

theorem one_step_search_and_construction:
  "avoid_walk (possible_steps_2d e obs) (replicate 1 (0, 0)) 1 g = Inr (Walk [(0, 0)], g)
   \<and> avoid_walk (possible_steps_3d mx obs3) (replicate 1 (0, 0, 0)) 1 g = Inr (Walk [(0, 0, 0)], g)
   \<and> new_RandomWalk 1 pg ng = Some (Inl ValueError)
   \<and> new_RandomWalk3D 1 pg ng = Some (Inl ValueError)"
  by (simp add: new_RandomWalk_def new_RandomWalk3D_def Let_def border_def
      h_length_2d_1[unfolded One_nat_def] set_max_1[unfolded One_nat_def] gen2_small gen3_small)

section \<open>Legal moves and the search from the zero buffer\<close>

lemma successively_nth:
  "successively P xs \<Longrightarrow> Suc i < length xs \<Longrightarrow> P (xs ! i) (xs ! Suc i)"
proof (induction xs arbitrary: i)
  case Nil
  then show ?case by simp
next
  case (Cons x xs)
  show ?case
  proof (cases i)
    case 0
    with Cons.prems show ?thesis by (cases xs) auto
  next
    case (Suc k)
    with Cons.prems have "successively P xs" "Suc k < length xs"
      by (auto simp: successively_Cons)
    from Cons.IH[OF this] show ?thesis using Suc by simp
  qed
qed

lemma zip_replicate_right: "set (zip xs (replicate (length xs) c)) = (\<lambda>x. (x, c)) ` set xs"
  by (induction xs) auto

lemma zip_replicate_left: "set (zip (replicate (length ys) c) ys) = (\<lambda>y. (c, y)) ` set ys"
  by (induction ys) auto

lemma ring_mem:
  "(x, y) \<in> set (edge_points (border_ring H)) \<longleftrightarrow>
     (- H \<le> x \<and> x \<le> H \<and> (y = H \<or> y = - H)) \<or> (- H \<le> y \<and> y \<le> H \<and> (x = H \<or> x = - H))"
proof -
  have l: "length (rev [- H .. H]) = length [- H .. H]" by simp
  have "set (edge_points (border_ring H)) =
      (\<lambda>x. (x, H)) ` {- H .. H} \<union> (\<lambda>y. (H, y)) ` {- H .. H}
      \<union> (\<lambda>x. (x, - H)) ` {- H .. H} \<union> (\<lambda>y. (- H, y)) ` {- H .. H}"
    unfolding edge_points_def border_ring_def Let_def fst_conv snd_conv
    by (simp only: zip_append length_replicate l[symmetric] set_append
          zip_replicate_right zip_replicate_left set_rev set_upto Un_assoc)
       (simp only: l zip_replicate_right zip_replicate_left set_rev set_upto Un_assoc)
  then show ?thesis by auto
qed


lemma np_add_2d_unit: "opt \<in> set options_2d \<Longrightarrow> unit_step_2d p (np_add_2d p opt)"
  by (cases p) (auto simp: options_2d_def unit_step_2d_def)

lemma np_add_3d_unit: "opt \<in> set options_3d \<Longrightarrow> unit_step_3d p (np_add_3d p opt)"
proof -
  obtain a b c where p: "p = (a, b, c)" by (cases p) auto
  show "opt \<in> set options_3d \<Longrightarrow> unit_step_3d p (np_add_3d p opt)"
    unfolding p by (auto simp: options_3d_def unit_step_3d_def)
qed

lemma possible_steps_2d_mem:
  assumes "possible_steps_2d e obs steps i g = Inr (cands, g1)"
  shows "i < length steps" and "length cands \<le> 4"
    and "\<forall>c \<in> set cands. c \<notin> set steps \<and> c \<notin> set (edge_points e) \<and> c \<notin> set obs
           \<and> unit_step_2d (steps ! i) c"
proof -
  let ?pc = "filter (\<lambda>temp. temp \<notin> set steps \<and> temp \<notin> set (edge_points e) \<and> temp \<notin> set obs)
                 (map (np_add_2d (steps ! i)) options_2d)"
  from assms show i: "i < length steps"
    by (auto simp: possible_steps_2d_def split: if_splits)
  with assms have c: "cands = fst (shuffle ?pc g)"
    by (auto simp: possible_steps_2d_def Let_def split: if_splits)
  have "length ?pc \<le> length (map (np_add_2d (steps ! i)) options_2d)" by (rule length_filter_le)
  then show "length cands \<le> 4" by (simp add: c shuffle_length options_2d_def)
  have "set cands = set ?pc" by (simp add: c shuffle_set)
  then show "\<forall>c \<in> set cands. c \<notin> set steps \<and> c \<notin> set (edge_points e) \<and> c \<notin> set obs
           \<and> unit_step_2d (steps ! i) c"
    by (auto simp: np_add_2d_unit)
qed

lemma possible_steps_3d_mem:
  assumes "possible_steps_3d mx obs steps i g = Inr (cands, g1)"
  shows "i < length steps" and "length cands \<le> 6"
    and "\<forall>c \<in> set cands. c \<notin> set steps
           \<and> (\<bar>fst c\<bar> < mx \<and> \<bar>fst (snd c)\<bar> < mx \<and> \<bar>snd (snd c)\<bar> < mx) \<and> c \<notin> set obs
           \<and> unit_step_3d (steps ! i) c"
proof -
  let ?pc = "filter (\<lambda>temp. temp \<notin> set steps
                           \<and> (case temp of (t0, t1, t2) \<Rightarrow>
                                 \<bar>t0\<bar> < mx \<and> \<bar>t1\<bar> < mx \<and> \<bar>t2\<bar> < mx)
                           \<and> temp \<notin> set obs)
                 (map (np_add_3d (steps ! i)) options_3d)"
  from assms show i: "i < length steps"
    by (auto simp: possible_steps_3d_def split: if_splits)
  with assms have c: "cands = fst (shuffle ?pc g)"
    by (auto simp: possible_steps_3d_def Let_def split: if_splits)
  have "length ?pc \<le> length (map (np_add_3d (steps ! i)) options_3d)" by (rule length_filter_le)
  then show "length cands \<le> 6" by (simp add: c shuffle_length options_3d_def)
  have "set cands = set ?pc" by (simp add: c shuffle_set)
  then show "\<forall>c \<in> set cands. c \<notin> set steps
           \<and> (\<bar>fst c\<bar> < mx \<and> \<bar>fst (snd c)\<bar> < mx \<and> \<bar>snd (snd c)\<bar> < mx) \<and> c \<notin> set obs
           \<and> unit_step_3d (steps ! i) c"
    by (auto simp: np_add_3d_unit)
qed

lemma possible_steps_2d_total:
  "i < length steps \<Longrightarrow> \<exists>cands g1. possible_steps_2d e obs steps i g = Inr (cands, g1)"
  by (simp add: possible_steps_2d_def Let_def)

lemma possible_steps_3d_total:
  "i < length steps \<Longrightarrow> \<exists>cands g1. possible_steps_3d mx obs steps i g = Inr (cands, g1)"
  by (simp add: possible_steps_3d_def Let_def)

lemma inside_step_2d:
  assumes "\<bar>fst p\<bar> < H \<and> \<bar>snd p\<bar> < H" and "unit_step_2d p c"
    and "c \<notin> set (edge_points (border_ring H))"
  shows "\<bar>fst c\<bar> < H \<and> \<bar>snd c\<bar> < H"
proof -
  obtain x y where c: "c = (x, y)" by (cases c)
  from assms(3) have "\<not> ((- H \<le> x \<and> x \<le> H \<and> (y = H \<or> y = - H))
      \<or> (- H \<le> y \<and> y \<le> H \<and> (x = H \<or> x = - H)))"
    unfolding c ring_mem .
  with assms(1,2) show ?thesis unfolding c unit_step_2d_def by (cases p) auto
qed

lemma cands_ok_2d_plain:
  "possible_steps_2d e obs steps i g = Inr (cands, g1) \<Longrightarrow>
     cands_ok unit_step_2d (\<lambda>p. p \<notin> set obs) steps i cands"
  using possible_steps_2d_mem[of e obs steps i g cands g1] by (auto simp: cands_ok_def)

lemma cands_ok_2d_inside:
  "possible_steps_2d (border_ring H) obs steps i g = Inr (cands, g1) \<Longrightarrow>
     cands_ok unit_step_2d (\<lambda>p. \<bar>fst p\<bar> < H \<and> \<bar>snd p\<bar> < H) steps i cands"
  using possible_steps_2d_mem[of "border_ring H" obs steps i g cands g1]
  unfolding cands_ok_def by (meson inside_step_2d)

lemma cands_ok_3d_plain:
  "possible_steps_3d mx obs steps i g = Inr (cands, g1) \<Longrightarrow>
     cands_ok unit_step_3d (\<lambda>p. p \<notin> set obs) steps i cands"
  using possible_steps_3d_mem[of mx obs steps i g cands g1] by (auto simp: cands_ok_def)

lemma cands_ok_3d_inside:
  "possible_steps_3d mx obs steps i g = Inr (cands, g1) \<Longrightarrow>
     cands_ok unit_step_3d (\<lambda>p. \<bar>fst p\<bar> < mx \<and> \<bar>fst (snd p)\<bar> < mx \<and> \<bar>snd (snd p)\<bar> < mx)
       steps i cands"
  using possible_steps_3d_mem[of mx obs steps i g cands g1] by (auto simp: cands_ok_def)

lemma cands_ok_weaken:
  "cands_ok step ok steps i cands \<Longrightarrow> cands_ok step (\<lambda>_. True) steps i cands"
  by (auto simp: cands_ok_def)

lemma walk_inv_start:
  assumes "1 \<le> N" and "ok p"
  shows "walk_inv step ok (replicate N p) 1"
proof -
  from assms(1) obtain m where N: "N = Suc m" by (cases N) auto
  show ?thesis unfolding N walk_inv_def using assms(2) by simp
qed

lemma search_from_zeros:
  assumes ps: "\<And>steps i g cands g1. ps steps i g = Inr (cands, g1) \<Longrightarrow>
                 cands_ok step ok steps i cands"
    and run: "avoid_walk ps (replicate N p) 1 g = Inr (Walk w, g')"
    and okp: "ok p"
  shows "1 \<le> N \<and> length w = N \<and> w ! 0 = p \<and> distinct w \<and> successively step w \<and> list_all ok w"
proof (cases "N = 0")
  case True
  show ?thesis
  proof (cases "ps (replicate N p) 1 g")
    case (Inl e)
    with run True show ?thesis by simp
  next
    case (Inr r)
    obtain cands g1 where "r = (cands, g1)" by (cases r)
    with Inr ps have "cands_ok step ok (replicate N p) 1 cands" by simp
    with True show ?thesis by (simp add: cands_ok_def)
  qed
next
  case False
  then have N: "1 \<le> N" by simp
  from avoid_walk_good(1)[of ps step ok, OF ps run walk_inv_start[where ok = ok and p = p and step = step, OF N okp]] N
  show ?thesis by simp
qed

lemma avoid_walk_total:
  "(\<And>steps i g. i < length steps \<Longrightarrow> \<exists>cands g1. ps steps i g = Inr (cands, g1)) \<Longrightarrow>
   i \<le> length steps \<Longrightarrow> \<exists>r g'. avoid_walk ps steps i g = Inr (r, g')"
  and "(\<And>steps i g. i < length steps \<Longrightarrow> \<exists>cands g1. ps steps i g = Inr (cands, g1)) \<Longrightarrow>
   i < length steps \<Longrightarrow> \<exists>r g'. try_steps ps steps i js g = Inr (r, g')"
proof (induction ps steps i g and ps steps i js g rule: avoid_walk_try_steps.induct)
  case (1 ps steps i g)
  note tot = "1.prems"(1) and le = "1.prems"(2)
  show ?case
  proof (cases "i = length steps")
    case True
    then show ?thesis by simp
  next
    case False
    with le have lt: "i < length steps" by simp
    from tot[OF lt] obtain cands g1 where p: "ps steps i g = Inr (cands, g1)" by blast
    show ?thesis
    proof (cases "length cands = 0")
      case True
      with False p show ?thesis by simp
    next
      case ne: False
      from "1.IH"[OF False p refl ne tot lt] False p ne show ?thesis by simp
    qed
  qed
next
  case (2 ps steps i g)
  then show ?case by simp
next
  case (3 ps steps i j js g)
  note tot = "3.prems"(1) and lt = "3.prems"(2)
  have nle: "\<not> length steps \<le> i" using lt by simp
  define t where "t = (if i < length steps - 1 then (steps[i := j])[i + 1 := (steps[i := j]) ! i]
                 else steps[i := j])"
  have "i + 1 \<le> length t" using lt by (simp add: t_def)
  from "3.IH"(1)[OF nle refl refl tot this[unfolded t_def]]
  obtain r g1 where aw: "avoid_walk ps t (i + 1) g = Inr (r, g1)" unfolding t_def by blast
  show ?case
  proof (cases r)
    case (Walk w)
    with aw nle show ?thesis by (simp add: Let_def t_def)
  next
    case DeadEnd
    with aw have aw': "avoid_walk ps t (i + 1) g = Inr (DeadEnd, g1)" by simp
    from "3.IH"(2)[OF nle refl refl aw'[unfolded t_def] refl refl tot lt]
    obtain r' g2 where "try_steps ps steps i js g1 = Inr (r', g2)" by blast
    with aw' nle show ?thesis by (simp add: Let_def t_def)
  qed
qed

lemma py_round_ge_floor: "\<lfloor>x\<rfloor> \<le> py_round x"
  by (simp add: py_round_def Let_def)

lemma py_round_pos: "1 / 2 < x \<Longrightarrow> 1 \<le> py_round x"
proof -
  assume x: "1 / 2 < x"
  have f0: "0 \<le> \<lfloor>x\<rfloor>" using x by simp
  show ?thesis
  proof (cases "\<lfloor>x\<rfloor> = 0")
    case True
    then show ?thesis using x by (simp add: py_round_def Let_def)
  next
    case False
    with f0 have "1 \<le> \<lfloor>x\<rfloor>" by linarith
    with py_round_ge_floor[of x] show ?thesis by linarith
  qed
qed

lemma h_length_2d_pos: "1 \<le> sz \<Longrightarrow> 1 \<le> h_length_2d sz"
proof -
  assume "1 \<le> sz"
  then have "1 \<le> sqrt (real sz)" by simp
  then have "1 \<le> \<lfloor>sqrt (real sz)\<rfloor>" by simp
  with py_round_ge_floor[of "sqrt (real sz)"] have "1 \<le> py_round (sqrt (real sz))"
    by linarith
  then have "(1::real) \<le> of_int (py_round (sqrt (real sz)))" by simp
  then have "1 / 2 < real_of_int (py_round (sqrt (real sz))) * 1.75 / 2" by simp
  then show ?thesis unfolding h_length_2d_def Let_def by (rule py_round_pos)
qed

lemma set_max_pos: "1 \<le> sz \<Longrightarrow> 1 \<le> set_max sz"
proof -
  assume "1 \<le> sz"
  then have "1 \<le> root 3 (real sz)" by (simp add: real_root_ge_1_iff)
  then have "1 \<le> \<lfloor>root 3 (real sz)\<rfloor>" by simp
  with py_round_ge_floor[of "root 3 (real sz)"] have "1 \<le> py_round (root 3 (real sz))"
    by linarith
  then have "(1::real) \<le> of_int (py_round (root 3 (real sz)))" by simp
  then have "1 / 2 < real_of_int (py_round (root 3 (real sz))) * 1.75 / 2" by simp
  then show ?thesis unfolding set_max_def Let_def by (rule py_round_pos)
qed

section \<open>Runs of the search on concrete inputs\<close>

text \<open>
  On the constant stream every draw of the shuffle is 0, which rotates the list by one place.
\<close>

lemma shuffle_zero_2: "shuffle [a, b] (sconst 0) = ([b, a], sconst 0)"
  by (simp add: shuffle_def eval_nat_numeral Let_def)
lemma shuffle_zero_3: "shuffle [a, b, c] (sconst 0) = ([b, c, a], sconst 0)"
  by (simp add: shuffle_def eval_nat_numeral Let_def)
lemma shuffle_zero_4: "shuffle [a, b, c, d] (sconst 0) = ([b, c, d, a], sconst 0)"
  by (simp add: shuffle_def eval_nat_numeral Let_def)
lemma shuffle_zero_5: "shuffle [a, b, c, d, e] (sconst 0) = ([b, c, d, e, a], sconst 0)"
  by (simp add: shuffle_def eval_nat_numeral Let_def)
lemma shuffle_zero_6: "shuffle [a, b, c, d, e, f] (sconst 0) = ([b, c, d, e, f, a], sconst 0)"
  by (simp add: shuffle_def eval_nat_numeral Let_def)

lemmas shuffle_zero = shuffle_zero_2 shuffle_zero_3 shuffle_zero_4 shuffle_zero_5 shuffle_zero_6

lemma run_3d:
  "avoid_walk (possible_steps_3d 2 []) (replicate 4 (0, 0, 0)) 1 (sconst 0)
     = Inr (Walk [(0, 0, 0), (0, 0, - 1), (0, - 1, - 1), (1, - 1, - 1)], sconst 0)"
  by (simp add: possible_steps_3d_def options_3d_def shuffle_zero eval_nat_numeral Let_def)

lemma shuffle_nil: "shuffle [] g = ([], g)"
  by (simp add: shuffle_def)

lemma run_2d:
  "avoid_walk (possible_steps_2d (border_ring 2) []) (replicate 3 (0, 0)) 1 (sconst 0)
     = Inr (Walk [(0, 0), (0, - 1), (- 1, - 1)], sconst 0)"
  by (simp add: possible_steps_2d_def options_2d_def shuffle_zero eval_nat_numeral Let_def
        edge_points_def border_ring_def upto_rec1)

lemma run_2d_obs:
  "avoid_walk (possible_steps_2d (border_ring 5) (cells_2d (block_2d (- 5, - 5))))
       (replicate 3 (0, 0)) 1 (sconst 0)
     = Inr (Walk [(0, 0), (0, - 1), (1, - 1)], sconst 0)"
  by (simp add: possible_steps_2d_def options_2d_def shuffle_zero eval_nat_numeral Let_def
        edge_points_def border_ring_def upto_rec1 cells_2d_def block_2d_def)

lemma run_3d_obs:
  "avoid_walk (possible_steps_3d 5 (cells_3d (block_3d (- 5, - 5, - 5))))
       (replicate 3 (0, 0, 0)) 1 (sconst 0)
     = Inr (Walk [(0, 0, 0), (0, 0, - 1), (0, 1, - 1)], sconst 0)"
  by (simp add: possible_steps_3d_def options_3d_def shuffle_zero eval_nat_numeral Let_def
        cells_3d_def block_3d_def upto_rec1)

lemma dead_2d:
  "avoid_walk (possible_steps_2d (border_ring 1) obs) (replicate 50 (0, 0)) 1 g = Inr (DeadEnd, g)"
  by (simp add: possible_steps_2d_def options_2d_def shuffle_nil Let_def
        edge_points_def border_ring_def upto_rec1)

lemma dead_3d:
  "avoid_walk (possible_steps_3d 1 obs) (replicate 50 (0, 0, 0)) 1 g = Inr (DeadEnd, g)"
  by (simp add: possible_steps_3d_def options_3d_def shuffle_nil Let_def)

section \<open>The search from the zero buffer, in both files\<close>

lemma h_length_2d_3: "h_length_2d 3 = 2"
proof -
  have "h_length_2d 3 = py_round (of_int 2 * 1.75 / 2)" by (rule h_length_2d_eq) simp_all
  also have "\<dots> = 2" by (rule py_round_eqI) simp_all
  finally show ?thesis .
qed

lemma set_max_4: "set_max 4 = 2"
proof -
  have "set_max 4 = py_round (of_int 2 * 1.75 / 2)" by (rule set_max_eq) simp_all
  also have "\<dots> = 2" by (rule py_round_eqI) simp_all
  finally show ?thesis .
qed

lemma search_2d_facts:
  assumes "avoid_walk (possible_steps_2d e obs) (replicate N (0, 0)) 1 g = Inr (Walk w, g')"
  shows "1 \<le> N \<and> length w = N \<and> w ! 0 = (0, 0) \<and> distinct w \<and> successively unit_step_2d w"
  using search_from_zeros[of "possible_steps_2d e obs" unit_step_2d "\<lambda>_. True" N "(0, 0)" g w g',
      OF cands_ok_weaken[OF cands_ok_2d_plain] assms]
  by simp

lemma search_3d_facts:
  assumes "avoid_walk (possible_steps_3d mx obs) (replicate N (0, 0, 0)) 1 g = Inr (Walk w, g')"
  shows "1 \<le> N \<and> length w = N \<and> w ! 0 = (0, 0, 0) \<and> distinct w
           \<and> successively unit_step_3d w"
  using search_from_zeros[of "possible_steps_3d mx obs" unit_step_3d "\<lambda>_. True" N "(0, 0, 0)" g w g',
      OF cands_ok_weaken[OF cands_ok_3d_plain] assms]
  by simp

lemma search_2d_inside:
  assumes run: "avoid_walk (possible_steps_2d (border_ring H) obs) (replicate N (0, 0)) 1 g
                  = Inr (Walk w, g')"
    and H: "1 \<le> H"
  shows "\<forall>p \<in> set w. \<bar>fst p\<bar> < H \<and> \<bar>snd p\<bar> < H"
proof -
  have "list_all (\<lambda>p. \<bar>fst p\<bar> < H \<and> \<bar>snd p\<bar> < H) w"
    using search_from_zeros[of "possible_steps_2d (border_ring H) obs" unit_step_2d
        "\<lambda>p. \<bar>fst p\<bar> < H \<and> \<bar>snd p\<bar> < H" N "(0, 0)" g w g', OF cands_ok_2d_inside run] H
    by simp
  then show ?thesis by (simp add: list_all_iff)
qed

lemma search_3d_inside:
  assumes run: "avoid_walk (possible_steps_3d mx obs) (replicate N (0, 0, 0)) 1 g
                  = Inr (Walk w, g')"
    and H: "1 \<le> mx"
  shows "\<forall>p \<in> set w. \<bar>fst p\<bar> < mx \<and> \<bar>fst (snd p)\<bar> < mx \<and> \<bar>snd (snd p)\<bar> < mx"
proof -
  have "list_all (\<lambda>p. \<bar>fst p\<bar> < mx \<and> \<bar>fst (snd p)\<bar> < mx \<and> \<bar>snd (snd p)\<bar> < mx) w"
    using search_from_zeros[of "possible_steps_3d mx obs" unit_step_3d
        "\<lambda>p. \<bar>fst p\<bar> < mx \<and> \<bar>fst (snd p)\<bar> < mx \<and> \<bar>snd (snd p)\<bar> < mx" N "(0, 0, 0)" g w g',
        OF cands_ok_3d_inside run] H
    by simp
  then show ?thesis by (simp add: list_all_iff)
qed

lemma search_2d_obs_free:
  assumes run: "avoid_walk (possible_steps_2d e obs) (replicate N (0, 0)) 1 g = Inr (Walk w, g')"
    and o: "(0, 0) \<notin> set obs"
  shows "\<forall>p \<in> set w. p \<notin> set obs"
proof -
  have "list_all (\<lambda>p. p \<notin> set obs) w"
    using search_from_zeros[of "possible_steps_2d e obs" unit_step_2d
        "\<lambda>p. p \<notin> set obs" N "(0, 0)" g w g', OF cands_ok_2d_plain run] o
    by simp
  then show ?thesis by (simp add: list_all_iff)
qed

lemma search_3d_obs_free:
  assumes run: "avoid_walk (possible_steps_3d mx obs) (replicate N (0, 0, 0)) 1 g
                  = Inr (Walk w, g')"
    and o: "(0, 0, 0) \<notin> set obs"
  shows "\<forall>p \<in> set w. p \<notin> set obs"
proof -
  have "list_all (\<lambda>p. p \<notin> set obs) w"
    using search_from_zeros[of "possible_steps_3d mx obs" unit_step_3d
        "\<lambda>p. p \<notin> set obs" N "(0, 0, 0)" g w g', OF cands_ok_3d_plain run] o
    by simp
  then show ?thesis by (simp add: list_all_iff)
qed

lemma search_2d_returns:
  assumes "1 \<le> N"
  shows "\<exists>r g'. avoid_walk (possible_steps_2d e obs) (replicate N (0, 0)) 1 g = Inr (r, g')"
  using avoid_walk_total(1)[of "possible_steps_2d e obs" 1 "replicate N (0, 0)" g,
      OF possible_steps_2d_total] assms
  by simp

lemma search_3d_returns:
  assumes "1 \<le> N"
  shows "\<exists>r g'. avoid_walk (possible_steps_3d mx obs) (replicate N (0, 0, 0)) 1 g = Inr (r, g')"
  using avoid_walk_total(1)[of "possible_steps_3d mx obs" 1 "replicate N (0, 0, 0)" g,
      OF possible_steps_3d_total] assms
  by simp

section \<open>Claims about the walk search\<close>

text \<open>
  Claim C1.  Every walk returned by the search from the zero buffer at index 1 has pairwise
  distinct points, in \<^verbatim>\<open>main.py\<close> and in \<^verbatim>\<open>3d.py\<close>, for every border list, every
  obstacle list and every behaviour of the generator.  The zero slots and the placeholder
  copy are only ever equal to points of the committed prefix, and a candidate is rejected
  when it occurs anywhere in the buffer.
\<close>

theorem walk_points_distinct:
  "(avoid_walk (possible_steps_2d e obs) (replicate N (0, 0)) 1 g = Inr (Walk w, g')
      \<longrightarrow> distinct w)
   \<and> (avoid_walk (possible_steps_3d mx obs3) (replicate M (0, 0, 0)) 1 h = Inr (Walk w3, h')
      \<longrightarrow> distinct w3)"
  using search_2d_facts search_3d_facts by blast

theorem walk_points_distinct_witness:
  "avoid_walk (possible_steps_2d (border_ring 2) []) (replicate 3 (0, 0)) 1 (sconst 0)
     = Inr (Walk [(0, 0), (0, - 1), (- 1, - 1)], sconst 0)
   \<and> distinct ([(0, 0), (0, - 1), (- 1, - 1)] :: point2 list)
   \<and> avoid_walk (possible_steps_3d 2 []) (replicate 4 (0, 0, 0)) 1 (sconst 0)
     = Inr (Walk [(0, 0, 0), (0, 0, - 1), (0, - 1, - 1), (1, - 1, - 1)], sconst 0)
   \<and> distinct ([(0, 0, 0), (0, 0, - 1), (0, - 1, - 1), (1, - 1, - 1)] :: point3 list)"
  using walk_points_distinct[of "border_ring 2" "[]" 3 "sconst 0"
      "[(0, 0), (0, - 1), (- 1, - 1)]" "sconst 0" 2 "[]" 4 "sconst 0"
      "[(0, 0, 0), (0, 0, - 1), (0, - 1, - 1), (1, - 1, - 1)]" "sconst 0"]
  by (simp only: run_2d run_3d)

text \<open>
  Claim C4.  Every walk returned by the search has exactly as many points as the buffer has
  columns, its first point is the origin, and each point differs from its successor by one
  unit on exactly one axis.
\<close>

theorem walk_shape:
  "(avoid_walk (possible_steps_2d e obs) (replicate N (0, 0)) 1 g = Inr (Walk w, g')
      \<longrightarrow> length w = N \<and> w ! 0 = (0, 0)
          \<and> (\<forall>i. Suc i < N \<longrightarrow> unit_step_2d (w ! i) (w ! Suc i)))
   \<and> (avoid_walk (possible_steps_3d mx obs3) (replicate M (0, 0, 0)) 1 h = Inr (Walk w3, h')
      \<longrightarrow> length w3 = M \<and> w3 ! 0 = (0, 0, 0)
          \<and> (\<forall>i. Suc i < M \<longrightarrow> unit_step_3d (w3 ! i) (w3 ! Suc i)))"
proof (intro conjI impI allI)
  assume a: "avoid_walk (possible_steps_2d e obs) (replicate N (0, 0)) 1 g = Inr (Walk w, g')"
  from search_2d_facts[OF a] show "length w = N" "w ! 0 = (0, 0)" by simp_all
  fix i assume "Suc i < N"
  with search_2d_facts[OF a] show "unit_step_2d (w ! i) (w ! Suc i)"
    by (simp add: successively_nth)
next
  assume a: "avoid_walk (possible_steps_3d mx obs3) (replicate M (0, 0, 0)) 1 h = Inr (Walk w3, h')"
  from search_3d_facts[OF a] show "length w3 = M" "w3 ! 0 = (0, 0, 0)" by simp_all
  fix i assume "Suc i < M"
  with search_3d_facts[OF a] show "unit_step_3d (w3 ! i) (w3 ! Suc i)"
    by (simp add: successively_nth)
qed

theorem walk_shape_witness:
  "avoid_walk (possible_steps_2d (border_ring 2) []) (replicate 3 (0, 0)) 1 (sconst 0)
     = Inr (Walk [(0, 0), (0, - 1), (- 1, - 1)], sconst 0)
   \<and> length ([(0, 0), (0, - 1), (- 1, - 1)] :: point2 list) = 3
   \<and> unit_step_2d (0, 0) (0, - 1) \<and> unit_step_2d (0, - 1) (- 1, - 1)
   \<and> avoid_walk (possible_steps_3d 2 []) (replicate 4 (0, 0, 0)) 1 (sconst 0)
     = Inr (Walk [(0, 0, 0), (0, 0, - 1), (0, - 1, - 1), (1, - 1, - 1)], sconst 0)
   \<and> unit_step_3d (0, 0, 0) (0, 0, - 1) \<and> unit_step_3d (0, 0, - 1) (0, - 1, - 1)
   \<and> unit_step_3d (0, - 1, - 1) (1, - 1, - 1)"
  using walk_shape[of "border_ring 2" "[]" 3 "sconst 0"
      "[(0, 0), (0, - 1), (- 1, - 1)]" "sconst 0" 2 "[]" 4 "sconst 0"
      "[(0, 0, 0), (0, 0, - 1), (0, - 1, - 1), (1, - 1, - 1)]" "sconst 0"]
  by (simp only: run_2d run_3d) (simp add: unit_step_2d_def unit_step_3d_def)

text \<open>
  Claim C2.  With the border (\<^verbatim>\<open>main.py\<close>) or the maximal distance (\<^verbatim>\<open>3d.py\<close>)
  computed from the step count, every point of a returned walk has every coordinate strictly
  below the computed half-width in absolute value.  In \<^verbatim>\<open>main.py\<close> this follows from the
  border list: a unit step from a point strictly inside that does not land on the ring stays
  strictly inside, and the half-width of a positive step count is at least 1.
\<close>

theorem walk_inside_region:
  "(avoid_walk (possible_steps_2d (border sz) obs) (replicate sz (0, 0)) 1 g = Inr (Walk w, g')
      \<longrightarrow> (\<forall>p \<in> set w. \<bar>fst p\<bar> < h_length_2d sz \<and> \<bar>snd p\<bar> < h_length_2d sz))
   \<and> (avoid_walk (possible_steps_3d (set_max sz3) obs3) (replicate sz3 (0, 0, 0)) 1 h
        = Inr (Walk w3, h')
      \<longrightarrow> (\<forall>p \<in> set w3. \<bar>fst p\<bar> < set_max sz3 \<and> \<bar>fst (snd p)\<bar> < set_max sz3
                         \<and> \<bar>snd (snd p)\<bar> < set_max sz3))"
proof (intro conjI impI)
  assume a: "avoid_walk (possible_steps_2d (border sz) obs) (replicate sz (0, 0)) 1 g
               = Inr (Walk w, g')"
  from search_2d_facts[OF a] have "1 \<le> sz" by simp
  then have "1 \<le> h_length_2d sz" by (rule h_length_2d_pos)
  from search_2d_inside[OF a[unfolded border_def] this]
  show "\<forall>p \<in> set w. \<bar>fst p\<bar> < h_length_2d sz \<and> \<bar>snd p\<bar> < h_length_2d sz" .
next
  assume a: "avoid_walk (possible_steps_3d (set_max sz3) obs3) (replicate sz3 (0, 0, 0)) 1 h
        = Inr (Walk w3, h')"
  from search_3d_facts[OF a] have "1 \<le> sz3" by simp
  then have "1 \<le> set_max sz3" by (rule set_max_pos)
  from search_3d_inside[OF a this]
  show "\<forall>p \<in> set w3. \<bar>fst p\<bar> < set_max sz3 \<and> \<bar>fst (snd p)\<bar> < set_max sz3
                         \<and> \<bar>snd (snd p)\<bar> < set_max sz3" .
qed

theorem walk_inside_region_witness:
  "avoid_walk (possible_steps_2d (border 3) []) (replicate 3 (0, 0)) 1 (sconst 0)
     = Inr (Walk [(0, 0), (0, - 1), (- 1, - 1)], sconst 0)
   \<and> h_length_2d 3 = 2
   \<and> avoid_walk (possible_steps_3d (set_max 4) []) (replicate 4 (0, 0, 0)) 1 (sconst 0)
     = Inr (Walk [(0, 0, 0), (0, 0, - 1), (0, - 1, - 1), (1, - 1, - 1)], sconst 0)
   \<and> set_max 4 = 2"
  using walk_inside_region[of 3 "[]" "sconst 0"
      "[(0, 0), (0, - 1), (- 1, - 1)]" "sconst 0" 4 "[]" "sconst 0"
      "[(0, 0, 0), (0, 0, - 1), (0, - 1, - 1), (1, - 1, - 1)]" "sconst 0"]
  by (simp only: border_def h_length_2d_3 set_max_4 run_2d run_3d)

text \<open>
  Claim C3.  When the obstacle cells are the ones \<^verbatim>\<open>generate_obstacles\<close> produced from
  empty fields, no point of a returned walk is an obstacle cell.  The candidates are filtered
  against the list, and the origin is free because the placer keeps it free.
\<close>

theorem walk_avoids_obstacles:
  "(generate_obstacles_2d bord n ([], []) pg = Some (Inr ((obsts, obs), pg'))
      \<and> avoid_walk (possible_steps_2d e obs) (replicate N (0, 0)) 1 g = Inr (Walk w, g')
      \<longrightarrow> (\<forall>p \<in> set w. p \<notin> set obs))
   \<and> (generate_obstacles_3d mx m ([], []) pg3 = Some (Inr ((obsts3, obs3), pg3'))
      \<and> avoid_walk (possible_steps_3d mx' obs3) (replicate M (0, 0, 0)) 1 h = Inr (Walk w3, h')
      \<longrightarrow> (\<forall>p \<in> set w3. p \<notin> set obs3))"
proof (intro conjI impI)
  assume a: "generate_obstacles_2d bord n ([], []) pg = Some (Inr ((obsts, obs), pg'))
      \<and> avoid_walk (possible_steps_2d e obs) (replicate N (0, 0)) 1 g = Inr (Walk w, g')"
  from a generate_obstacles_2d_free have "(0, 0) \<notin> set obs" by blast
  with a search_2d_obs_free show "\<forall>p \<in> set w. p \<notin> set obs" by blast
next
  assume a: "generate_obstacles_3d mx m ([], []) pg3 = Some (Inr ((obsts3, obs3), pg3'))
      \<and> avoid_walk (possible_steps_3d mx' obs3) (replicate M (0, 0, 0)) 1 h = Inr (Walk w3, h')"
  from a generate_obstacles_3d_free have "(0, 0, 0) \<notin> set obs3" by blast
  with a search_3d_obs_free show "\<forall>p \<in> set w3. p \<notin> set obs3" by blast
qed

theorem walk_avoids_obstacles_witness:
  "generate_obstacles_2d (border_ring 5) 1 ([], []) (sconst 0)
     = Some (Inr (([block_2d (- 5, - 5)], cells_2d (block_2d (- 5, - 5))), sconst 0))
   \<and> avoid_walk (possible_steps_2d (border_ring 5) (cells_2d (block_2d (- 5, - 5))))
       (replicate 3 (0, 0)) 1 (sconst 0)
     = Inr (Walk [(0, 0), (0, - 1), (1, - 1)], sconst 0)
   \<and> (0, 0) \<notin> set (cells_2d (block_2d (- 5, - 5)))
   \<and> (0, - 1) \<notin> set (cells_2d (block_2d (- 5, - 5)))
   \<and> (1, - 1) \<notin> set (cells_2d (block_2d (- 5, - 5)))
   \<and> generate_obstacles_3d 5 1 ([], []) (sconst 0)
     = Some (Inr (([block_3d (- 5, - 5, - 5)], cells_3d (block_3d (- 5, - 5, - 5))), sconst 0))
   \<and> avoid_walk (possible_steps_3d 5 (cells_3d (block_3d (- 5, - 5, - 5))))
       (replicate 3 (0, 0, 0)) 1 (sconst 0)
     = Inr (Walk [(0, 0, 0), (0, 0, - 1), (0, 1, - 1)], sconst 0)
   \<and> (0, 0, 0) \<notin> set (cells_3d (block_3d (- 5, - 5, - 5)))
   \<and> (0, 0, - 1) \<notin> set (cells_3d (block_3d (- 5, - 5, - 5)))
   \<and> (0, 1, - 1) \<notin> set (cells_3d (block_3d (- 5, - 5, - 5)))"
  using walk_avoids_obstacles[of "border_ring 5" 1 "sconst 0" "[block_2d (- 5, - 5)]"
      "cells_2d (block_2d (- 5, - 5))" "sconst 0" "border_ring 5" 3 "sconst 0"
      "[(0, 0), (0, - 1), (1, - 1)]" "sconst 0"
      5 1 "sconst 0" "[block_3d (- 5, - 5, - 5)]" "cells_3d (block_3d (- 5, - 5, - 5))" "sconst 0"
      5 3 "sconst 0" "[(0, 0, 0), (0, 0, - 1), (0, 1, - 1)]" "sconst 0"]
  by (simp only: gen2_run gen3_run run_2d_obs run_3d_obs) simp

section \<open>The search under the interpreter's bound on nested calls\<close>

text \<open>
  The bounded search either raises \<^verbatim>\<open>RecursionError\<close> or does exactly what the unbounded
  search does, and with room for one activation per remaining column it never raises it.
\<close>

lemma limited_cases:
  "avoid_walk_limited d ps steps i g = Inl RecursionError
     \<or> avoid_walk_limited d ps steps i g = avoid_walk ps steps i g"
  and "try_steps_limited d ps steps i js g = Inl RecursionError
     \<or> try_steps_limited d ps steps i js g = try_steps ps steps i js g"
proof (induction d ps steps i g and d ps steps i js g
    rule: avoid_walk_limited_try_steps_limited.induct)
  case (1 d ps steps i g)
  show ?case
  proof (cases "d = 0 \<or> i = length steps")
    case True
    then show ?thesis by auto
  next
    case False
    then have d: "d \<noteq> 0" and i: "i \<noteq> length steps" by simp_all
    show ?thesis
    proof (cases "ps steps i g")
      case (Inl e)
      with d i show ?thesis by simp
    next
      case (Inr r)
      obtain cands g1 where r: "r = (cands, g1)" by (cases r)
      show ?thesis
      proof (cases "length cands = 0")
        case True
        with Inr r d i show ?thesis by simp
      next
        case ne: False
        from "1.IH"[OF d i Inr[unfolded r] refl ne] Inr r d i ne show ?thesis by simp
      qed
    qed
  qed
next
  case (2 d ps steps i g)
  then show ?case by simp
next
  case (3 d ps steps i j js g)
  show ?case
  proof (cases "length steps \<le> i")
    case True
    then show ?thesis by simp
  next
    case nle: False
    define t where "t = (if i < length steps - 1 then (steps[i := j])[i + 1 := (steps[i := j]) ! i]
                 else steps[i := j])"
    from "3.IH"(1)[OF nle refl refl]
    have c: "avoid_walk_limited (d - 1) ps t (i + 1) g = Inl RecursionError
       \<or> avoid_walk_limited (d - 1) ps t (i + 1) g = avoid_walk ps t (i + 1) g"
      unfolding t_def .
    show ?thesis
    proof (cases "avoid_walk_limited (d - 1) ps t (i + 1) g")
      case (Inl e)
      show ?thesis
      proof (cases "e = RecursionError")
        case True
        with Inl nle show ?thesis by (simp add: Let_def t_def)
      next
        case False
        with c Inl have "avoid_walk ps t (i + 1) g = Inl e" by auto
        with Inl nle show ?thesis by (simp add: Let_def t_def)
      qed
    next
      case (Inr r)
      with c have u: "avoid_walk ps t (i + 1) g = Inr r" by auto
      obtain res g1 where r: "r = (res, g1)" by (cases r)
      show ?thesis
      proof (cases res)
        case (Walk w)
        with Inr u r nle show ?thesis by (simp add: Let_def t_def)
      next
        case DeadEnd
        from Inr r DeadEnd have aw: "avoid_walk_limited (d - 1) ps t (i + 1) g = Inr (DeadEnd, g1)"
          by simp
        from "3.IH"(2)[OF nle refl refl aw[unfolded t_def] refl refl]
        have "try_steps_limited d ps steps i js g1 = Inl RecursionError
           \<or> try_steps_limited d ps steps i js g1 = try_steps ps steps i js g1" .
        with aw u r DeadEnd nle show ?thesis by (auto simp: Let_def t_def)
      qed
    qed
  qed
qed

lemma limited_returns:
  "avoid_walk_limited d ps steps i g = Inr r \<Longrightarrow> avoid_walk ps steps i g = Inr r"
  using limited_cases(1)[of d ps steps i g] by auto

lemma limited_enough:
  "length steps - i < d \<Longrightarrow> avoid_walk_limited d ps steps i g = avoid_walk ps steps i g"
  and "length steps - i < d \<Longrightarrow>
         try_steps_limited d ps steps i js g = try_steps ps steps i js g"
proof (induction d ps steps i g and d ps steps i js g
    rule: avoid_walk_limited_try_steps_limited.induct)
  case (1 d ps steps i g)
  then have d: "d \<noteq> 0" by simp
  show ?case
  proof (cases "i = length steps")
    case True
    with d show ?thesis by simp
  next
    case i: False
    show ?thesis
    proof (cases "ps steps i g")
      case (Inl e)
      with d i show ?thesis by simp
    next
      case (Inr r)
      obtain cands g1 where r: "r = (cands, g1)" by (cases r)
      show ?thesis
      proof (cases "length cands = 0")
        case True
        with Inr r d i show ?thesis by simp
      next
        case ne: False
        from "1.IH"[OF d i Inr[unfolded r] refl ne "1.prems"] Inr r d i ne show ?thesis by simp
      qed
    qed
  qed
next
  case (2 d ps steps i g)
  then show ?case by simp
next
  case (3 d ps steps i j js g)
  show ?case
  proof (cases "length steps \<le> i")
    case True
    then show ?thesis by simp
  next
    case nle: False
    define t where "t = (if i < length steps - 1 then (steps[i := j])[i + 1 := (steps[i := j]) ! i]
                 else steps[i := j])"
    have len: "length t = length steps" by (simp add: t_def)
    have lim: "try_steps_limited d ps steps i (j # js) g =
        (case avoid_walk_limited (d - 1) ps t (i + 1) g of
           Inl e \<Rightarrow> Inl e
         | Inr (Walk w, g1) \<Rightarrow> Inr (Walk w, g1)
         | Inr (DeadEnd, g1) \<Rightarrow> try_steps_limited d ps steps i js g1)"
      using nle by (simp add: Let_def t_def del: avoid_walk_limited.simps(1))
    have unl: "try_steps ps steps i (j # js) g =
        (case avoid_walk ps t (i + 1) g of
           Inl e \<Rightarrow> Inl e
         | Inr (Walk w, g1) \<Rightarrow> Inr (Walk w, g1)
         | Inr (DeadEnd, g1) \<Rightarrow> try_steps ps steps i js g1)"
      using nle by (simp add: Let_def t_def del: avoid_walk.simps(1))
    from nle "3.prems" have "length t - (i + 1) < d - 1" unfolding len by simp
    from "3.IH"(1)[OF nle refl refl this[unfolded t_def]]
    have e: "avoid_walk_limited (d - 1) ps t (i + 1) g = avoid_walk ps t (i + 1) g"
      unfolding t_def .
    show ?thesis
    proof (cases "avoid_walk ps t (i + 1) g")
      case (Inl e')
      show ?thesis unfolding lim unl e Inl by simp
    next
      case (Inr r)
      obtain res g1 where r: "r = (res, g1)" by (cases r)
      show ?thesis
      proof (cases res)
        case (Walk w)
        show ?thesis unfolding lim unl e Inr r Walk by simp
      next
        case DeadEnd
        have aw: "avoid_walk_limited (d - 1) ps t (i + 1) g = Inr (DeadEnd, g1)"
          unfolding e Inr r DeadEnd ..
        from "3.IH"(2)[OF nle refl refl aw[unfolded t_def] refl refl "3.prems"]
        have rest: "try_steps_limited d ps steps i js g1 = try_steps ps steps i js g1" .
        show ?thesis unfolding lim unl e Inr r DeadEnd using rest by simp
      qed
    qed
  qed
qed

lemma mod_59_aux: "k \<le> 4 \<Longrightarrow> 59 mod (Suc k + 1) = Suc k"
proof -
  assume "k \<le> 4"
  then have "k = 0 \<or> k = 1 \<or> k = 2 \<or> k = 3 \<or> k = 4" by auto
  moreover have "59 mod (Suc 0 + 1) = Suc 0"
  proof -
    have e: "Suc 0 + 1 = (2::nat)" by simp
    have "(59::nat) mod 2 = Suc 0" by simp
    then show ?thesis unfolding e .
  qed
  ultimately show ?thesis by (elim disjE) simp_all
qed

lemma mod_59: "k \<le> 4 \<Longrightarrow> 59 mod Suc (Suc k) = Suc k"
  using mod_59_aux[of k] by simp

lemma shuffle_loop_59: "k \<le> 5 \<Longrightarrow> shuffle_loop k x (sconst 59) = (x, sconst 59)"
proof (induction k arbitrary: x)
  case 0
  then show ?case by simp
next
  case (Suc k)
  then have k: "k \<le> 4" by simp
  then have "k \<le> 5" by simp
  from Suc.IH[OF this] show ?case by (simp add: Let_def mod_59[OF k])
qed

lemma shuffle_59: "length x \<le> 6 \<Longrightarrow> shuffle x (sconst 59) = (x, sconst 59)"
  unfolding shuffle_def by (rule shuffle_loop_59) simp

lemma line_state_length: "1 \<le> k \<Longrightarrow> k \<le> N \<Longrightarrow> length (line_state p N k) = N"
  by (simp add: line_state_def)

lemma line_state_nth: "1 \<le> k \<Longrightarrow> k < N \<Longrightarrow> line_state p N k ! k = p (k - 1)"
  by (simp add: line_state_def nth_append)

lemma line_state_set:
  "1 \<le> k \<Longrightarrow> set (line_state p N k) \<subseteq> p ` {0 ..< k}"
proof -
  assume k: "1 \<le> k"
  then have "p (k - 1) \<in> p ` {0 ..< k}" "p 0 \<in> p ` {0 ..< k}" by auto
  then show ?thesis by (auto simp: line_state_def)
qed

lemma line_state_commit:
  assumes "1 \<le> k" and "k < N"
  shows "(if k < length (line_state p N k) - 1
          then ((line_state p N k)[k := p k])[k + 1 := ((line_state p N k)[k := p k]) ! k]
          else (line_state p N k)[k := p k]) = line_state p N (k + 1)"
proof -
  let ?pre = "map p [0 ..< k]"
  have lp: "length ?pre = k" by simp
  have S: "line_state p N k = ?pre @ p (k - 1) # replicate (N - k - 1) (p 0)"
    using assms by (simp add: line_state_def)
  have u: "(line_state p N k)[k := p k] = ?pre @ p k # replicate (N - k - 1) (p 0)"
    unfolding S using list_update_length[of ?pre "p (k - 1)" "replicate (N - k - 1) (p 0)" "p k"]
    by (simp only: lp)
  have len: "length (line_state p N k) = N" using assms by (simp add: line_state_length)
  show ?thesis
  proof (cases "k < N - 1")
    case True
    then obtain m where m: "N - k - 1 = Suc m" by (cases "N - k - 1") auto
    have u': "(line_state p N k)[k := p k] = (?pre @ [p k]) @ p 0 # replicate m (p 0)"
      unfolding u m by simp
    have lp': "length (?pre @ [p k]) = k + 1" by simp
    have nk: "((line_state p N k)[k := p k]) ! k = p k"
      unfolding u using nth_append_length[of ?pre "p k"] by (simp only: lp)
    have "((line_state p N k)[k := p k])[k + 1 := p k] = (?pre @ [p k]) @ p k # replicate m (p 0)"
      unfolding u'
      using list_update_length[of "?pre @ [p k]" "p 0" "replicate m (p 0)" "p k"]
      by (simp only: lp')
    moreover have "line_state p N (k + 1) = (?pre @ [p k]) @ p k # replicate m (p 0)"
    proof -
      have "N - (k + 1) - 1 = m" using m by simp
      then show ?thesis using True by (simp add: line_state_def)
    qed
    ultimately show ?thesis using True by (simp only: len nk if_True)
  next
    case False
    with assms have N: "N = k + 1" by simp
    have "line_state p N (k + 1) = ?pre @ [p k]" by (simp add: line_state_def N)
    moreover have "(line_state p N k)[k := p k] = ?pre @ [p k]" unfolding u by (simp add: N)
    ultimately show ?thesis using False by (simp only: len if_False)
  qed
qed

lemma limited_overflow_line:
  assumes cand: "\<And>k. 1 \<le> k \<Longrightarrow> k < N \<Longrightarrow>
                   \<exists>rest. ps (line_state p N k) k g0 = Inr (p k # rest, g0)"
  shows "1 \<le> k \<Longrightarrow> k \<le> N \<Longrightarrow> d \<le> N - k \<Longrightarrow>
           avoid_walk_limited d ps (line_state p N k) k g0 = Inl RecursionError"
proof (induction d arbitrary: k)
  case 0
  then show ?case by simp
next
  case (Suc d)
  from Suc.prems have k: "1 \<le> k" "k < N" by simp_all
  from cand[OF k] obtain rest where c: "ps (line_state p N k) k g0 = Inr (p k # rest, g0)"
    by blast
  have len: "length (line_state p N k) = N" using k by (simp add: line_state_length)
  have "1 \<le> k + 1" "k + 1 \<le> N" "d \<le> N - (k + 1)" using Suc.prems by simp_all
  from Suc.IH[OF this]
  have deep: "avoid_walk_limited d ps (line_state p N (k + 1)) (k + 1) g0 = Inl RecursionError" .
  have nle: "\<not> length (line_state p N k) \<le> k" using k len by simp
  define t where "t = (if k < length (line_state p N k) - 1
          then ((line_state p N k)[k := p k])[k + 1 := ((line_state p N k)[k := p k]) ! k]
          else (line_state p N k)[k := p k])"
  have t: "t = line_state p N (k + 1)" unfolding t_def by (rule line_state_commit[OF k])
  have lim: "try_steps_limited (Suc d) ps (line_state p N k) k (p k # rest) g0 =
        (case avoid_walk_limited d ps t (k + 1) g0 of
           Inl e \<Rightarrow> Inl e
         | Inr (Walk w, g1) \<Rightarrow> Inr (Walk w, g1)
         | Inr (DeadEnd, g1) \<Rightarrow> try_steps_limited (Suc d) ps (line_state p N k) k rest g1)"
    using nle by (simp add: Let_def t_def del: avoid_walk_limited.simps(1))
  have ts: "try_steps_limited (Suc d) ps (line_state p N k) k (p k # rest) g0
              = Inl RecursionError"
    unfolding lim t deep by simp
  have "avoid_walk_limited (Suc d) ps (line_state p N k) k g0
          = try_steps_limited (Suc d) ps (line_state p N k) k (p k # rest) g0"
    using k len c by (subst avoid_walk_limited.simps(1)) (simp del: avoid_walk_limited.simps)
  then show ?case unfolding ts .
qed

lemma line_cand_2d:
  assumes "1 \<le> k" and "k < N" and "int N \<le> H"
  shows "\<exists>rest. possible_steps_2d (border_ring H) [] (line_state (\<lambda>n. (0, int n)) N k) k (sconst 59)
            = Inr ((0, int k) # rest, sconst 59)"
proof -
  let ?p = "\<lambda>n. (0 :: int, int n)"
  let ?S = "line_state ?p N k"
  let ?P = "\<lambda>temp. temp \<notin> set ?S \<and> temp \<notin> set (edge_points (border_ring H)) \<and> temp \<notin> set []"
  have len: "length ?S = N" using assms by (simp add: line_state_length)
  have nth: "?S ! k = (0, int (k - 1))" using assms by (simp add: line_state_nth)
  have k1: "int (k - Suc 0) + 1 = int k" using assms by simp
  have "(0, int k) \<notin> ?p ` {0 ..< k}" by auto
  with line_state_set[OF assms(1), of ?p N] have a: "(0, int k) \<notin> set ?S" by blast
  have b: "(0, int k) \<notin> set (edge_points (border_ring H))"
    using assms by (simp add: ring_mem)
  let ?rest = "filter ?P (map (np_add_2d (?S ! k)) (tl options_2d))"
  have f: "filter ?P (map (np_add_2d (?S ! k)) options_2d) = (0, int k) # ?rest"
    using a b by (simp add: options_2d_def nth k1)
  have "length ?rest \<le> length (map (np_add_2d (?S ! k)) (tl options_2d))"
    by (rule length_filter_le)
  then have l: "length ((0, int k) # ?rest) \<le> 6" by (simp add: options_2d_def)
  show ?thesis
    unfolding possible_steps_2d_def Let_def using assms(2)
    by (simp only: len f shuffle_59[OF l]) simp
qed

lemma line_cand_3d:
  assumes "1 \<le> k" and "k < N" and "int N \<le> mx"
  shows "\<exists>rest. possible_steps_3d mx [] (line_state (\<lambda>n. (0, 0, int n)) N k) k (sconst 59)
            = Inr ((0, 0, int k) # rest, sconst 59)"
proof -
  let ?p = "\<lambda>n. (0 :: int, 0 :: int, int n)"
  let ?S = "line_state ?p N k"
  let ?P = "\<lambda>temp. temp \<notin> set ?S
                           \<and> (case temp of (t0, t1, t2) \<Rightarrow>
                                 \<bar>t0\<bar> < mx \<and> \<bar>t1\<bar> < mx \<and> \<bar>t2\<bar> < mx)
                           \<and> temp \<notin> set []"
  have len: "length ?S = N" using assms by (simp add: line_state_length)
  have nth: "?S ! k = (0, 0, int (k - 1))" using assms by (simp add: line_state_nth)
  have k1: "int (k - Suc 0) + 1 = int k" using assms by simp
  have "(0, 0, int k) \<notin> ?p ` {0 ..< k}" by auto
  with line_state_set[OF assms(1), of ?p N] have a: "(0, 0, int k) \<notin> set ?S" by blast
  let ?rest = "filter ?P (map (np_add_3d (?S ! k)) (tl options_3d))"
  have f: "filter ?P (map (np_add_3d (?S ! k)) options_3d) = (0, 0, int k) # ?rest"
    using a assms by (simp add: options_3d_def nth k1)
  have "length ?rest \<le> length (map (np_add_3d (?S ! k)) (tl options_3d))"
    by (rule length_filter_le)
  then have l: "length ((0, 0, int k) # ?rest) \<le> 6" by (simp add: options_3d_def)
  show ?thesis
    unfolding possible_steps_3d_def Let_def using assms(2)
    by (simp only: len f shuffle_59[OF l]) simp
qed

lemma line_state_start: "1 \<le> N \<Longrightarrow> line_state p N 1 = replicate N (p 0)"
proof -
  assume "1 \<le> N"
  then obtain m where N: "N = Suc m" by (cases N) auto
  show ?thesis unfolding N by (cases m) (simp_all add: line_state_def)
qed

lemma overflow_2d:
  assumes "1 \<le> N" and "d < N" and "int N \<le> H"
  shows "avoid_walk_limited d (possible_steps_2d (border_ring H) []) (replicate N (0, 0)) 1
           (sconst 59) = Inl RecursionError"
proof -
  have ls: "line_state (\<lambda>n. (0, int n)) N 1 = replicate N (0, 0)"
    using line_state_start[OF assms(1), of "\<lambda>n. (0, int n)"] by simp
  have "avoid_walk_limited d (possible_steps_2d (border_ring H) [])
          (line_state (\<lambda>n. (0, int n)) N 1) 1 (sconst 59) = Inl RecursionError"
    using assms by (intro limited_overflow_line line_cand_2d) simp_all
  then show ?thesis unfolding ls .
qed

lemma overflow_3d:
  assumes "1 \<le> N" and "d < N" and "int N \<le> mx"
  shows "avoid_walk_limited d (possible_steps_3d mx []) (replicate N (0, 0, 0)) 1
           (sconst 59) = Inl RecursionError"
proof -
  have ls: "line_state (\<lambda>n. (0, 0, int n)) N 1 = replicate N (0, 0, 0)"
    using line_state_start[OF assms(1), of "\<lambda>n. (0, 0, int n)"] by simp
  have "avoid_walk_limited d (possible_steps_3d mx [])
          (line_state (\<lambda>n. (0, 0, int n)) N 1) 1 (sconst 59) = Inl RecursionError"
    using assms by (intro limited_overflow_line line_cand_3d) simp_all
  then show ?thesis unfolding ls .
qed

lemma search_2d_outcome:
  assumes "1 \<le> N"
  shows "(\<exists>g'. avoid_walk (possible_steps_2d e obs) (replicate N (0, 0)) 1 g = Inr (DeadEnd, g'))
      \<or> (\<exists>w g'. avoid_walk (possible_steps_2d e obs) (replicate N (0, 0)) 1 g = Inr (Walk w, g')
                  \<and> length w = N \<and> distinct w)"
proof -
  from search_2d_returns[OF assms, of e obs g] obtain r g' where
    r: "avoid_walk (possible_steps_2d e obs) (replicate N (0, 0)) 1 g = Inr (r, g')" by blast
  show ?thesis
  proof (cases r)
    case (Walk w)
    with r search_2d_facts[of e obs N g w g'] show ?thesis by auto
  next
    case DeadEnd
    with r show ?thesis by auto
  qed
qed

lemma search_3d_outcome:
  assumes "1 \<le> N"
  shows "(\<exists>g'. avoid_walk (possible_steps_3d mx obs) (replicate N (0, 0, 0)) 1 g
                = Inr (DeadEnd, g'))
      \<or> (\<exists>w g'. avoid_walk (possible_steps_3d mx obs) (replicate N (0, 0, 0)) 1 g
                    = Inr (Walk w, g')
                  \<and> length w = N \<and> distinct w)"
proof -
  from search_3d_returns[OF assms, of mx obs g] obtain r g' where
    r: "avoid_walk (possible_steps_3d mx obs) (replicate N (0, 0, 0)) 1 g = Inr (r, g')" by blast
  show ?thesis
  proof (cases r)
    case (Walk w)
    with r search_3d_facts[of mx obs N g w g'] show ?thesis by auto
  next
    case DeadEnd
    with r show ?thesis by auto
  qed
qed

lemma limited_from_zeros:
  assumes "1 \<le> N" and "N \<le> d"
  shows "avoid_walk_limited d ps (replicate N p) 1 g = avoid_walk ps (replicate N p) 1 g"
  using assms by (intro limited_enough(1)) simp

lemma dead_2d_limited:
  assumes "1 \<le> d"
  shows "avoid_walk_limited d (possible_steps_2d (border_ring 1) obs) (replicate 50 (0, 0)) 1 g
           = Inr (DeadEnd, g)"
proof -
  have "avoid_walk_limited d (possible_steps_2d (border_ring 1) obs) (replicate 50 (0, 0)) 1 g
          = Inl RecursionError
        \<or> avoid_walk_limited d (possible_steps_2d (border_ring 1) obs) (replicate 50 (0, 0)) 1 g
          = avoid_walk (possible_steps_2d (border_ring 1) obs) (replicate 50 (0, 0)) 1 g"
    by (rule limited_cases(1))
  moreover have "avoid_walk_limited d (possible_steps_2d (border_ring 1) obs)
                   (replicate 50 (0, 0)) 1 g \<noteq> Inl RecursionError"
    using assms
    by (subst avoid_walk_limited.simps(1))
       (simp add: possible_steps_2d_def options_2d_def shuffle_nil Let_def
          edge_points_def border_ring_def upto_rec1 del: avoid_walk_limited.simps)
  ultimately show ?thesis by (simp only: dead_2d) simp
qed

lemma dead_3d_limited:
  assumes "1 \<le> d"
  shows "avoid_walk_limited d (possible_steps_3d 1 obs) (replicate 50 (0, 0, 0)) 1 g
           = Inr (DeadEnd, g)"
proof -
  have "avoid_walk_limited d (possible_steps_3d 1 obs) (replicate 50 (0, 0, 0)) 1 g
          = Inl RecursionError
        \<or> avoid_walk_limited d (possible_steps_3d 1 obs) (replicate 50 (0, 0, 0)) 1 g
          = avoid_walk (possible_steps_3d 1 obs) (replicate 50 (0, 0, 0)) 1 g"
    by (rule limited_cases(1))
  moreover have "avoid_walk_limited d (possible_steps_3d 1 obs)
                   (replicate 50 (0, 0, 0)) 1 g \<noteq> Inl RecursionError"
    using assms
    by (subst avoid_walk_limited.simps(1))
       (simp add: possible_steps_3d_def options_3d_def shuffle_nil Let_def
          del: avoid_walk_limited.simps)
  ultimately show ?thesis by (simp only: dead_3d) simp
qed

lemma run_2d_limited:
  "avoid_walk_limited 3 (possible_steps_2d (border_ring 2) []) (replicate 3 (0, 0)) 1 (sconst 0)
     = Inr (Walk [(0, 0), (0, - 1), (- 1, - 1)], sconst 0)"
proof -
  have "avoid_walk_limited 3 (possible_steps_2d (border_ring 2) []) (replicate 3 (0, 0)) 1
          (sconst 0)
        = avoid_walk (possible_steps_2d (border_ring 2) []) (replicate 3 (0, 0)) 1 (sconst 0)"
    by (rule limited_from_zeros) simp_all
  then show ?thesis by (simp only: run_2d)
qed

lemma run_3d_limited:
  "avoid_walk_limited 4 (possible_steps_3d 2 []) (replicate 4 (0, 0, 0)) 1 (sconst 0)
     = Inr (Walk [(0, 0, 0), (0, 0, - 1), (0, - 1, - 1), (1, - 1, - 1)], sconst 0)"
proof -
  have "avoid_walk_limited 4 (possible_steps_3d 2 []) (replicate 4 (0, 0, 0)) 1 (sconst 0)
        = avoid_walk (possible_steps_3d 2 []) (replicate 4 (0, 0, 0)) 1 (sconst 0)"
    by (rule limited_from_zeros) simp_all
  then show ?thesis by (simp only: run_3d)
qed

text \<open>
  Claim C5, as stated: for every step count, half-width and obstacle cell set the search
  terminates and returns either a complete walk or the dead-end value.  It fails for long
  walks: with room for 1000 nested activations (more than CPython's default limit of 1000
  leaves), 1001 steps, half-width 2000, no obstacles and a generator whose shuffles leave the
  candidate order unchanged, the search walks straight along the first axis direction and
  raises \<^verbatim>\<open>RecursionError\<close> at the 1001st nested call, in both files.  It returns neither
  a walk nor \<^verbatim>\<open>False\<close>.
\<close>

theorem search_overflows_stack:
  "avoid_walk_limited 1000 (possible_steps_2d (border_ring 2000) []) (replicate 1001 (0, 0)) 1
       (sconst 59) = Inl RecursionError
   \<and> avoid_walk_limited 1000 (possible_steps_3d 2000 []) (replicate 1001 (0, 0, 0)) 1
       (sconst 59) = Inl RecursionError"
  by (intro conjI overflow_2d overflow_3d) simp_all

text \<open>
  Claim C5, amended.  The search from the zero buffer is a total function of its inputs and of
  the room \<open>d\<close> for nested calls, so it always terminates.  For a positive step count that
  does not exceed \<open>d\<close> it returns, for every border, half-width, obstacle list and
  generator, either the dead-end value, which carries no walk, or a walk of full length
  without repeated points, and it raises nothing.  For any positive step count its only other
  outcome is \<^verbatim>\<open>RecursionError\<close>: never a partially built walk.  Each level has at most 4
  candidates in \<^verbatim>\<open>main.py\<close> and at most 6 in \<^verbatim>\<open>3d.py\<close>.  With 50 steps and half-width
  1 the first activation returns the dead-end value without consuming the generator.
\<close>

theorem search_returns_within_depth:
  "(1 \<le> N \<and> N \<le> d \<longrightarrow>
      (\<exists>g'. avoid_walk_limited d (possible_steps_2d e obs) (replicate N (0, 0)) 1 g
               = Inr (DeadEnd, g'))
      \<or> (\<exists>w g'. avoid_walk_limited d (possible_steps_2d e obs) (replicate N (0, 0)) 1 g
                    = Inr (Walk w, g')
                  \<and> length w = N \<and> distinct w))
   \<and> (1 \<le> N \<longrightarrow>
      avoid_walk_limited d (possible_steps_2d e obs) (replicate N (0, 0)) 1 g
        = Inl RecursionError
      \<or> (\<exists>g'. avoid_walk_limited d (possible_steps_2d e obs) (replicate N (0, 0)) 1 g
                 = Inr (DeadEnd, g'))
      \<or> (\<exists>w g'. avoid_walk_limited d (possible_steps_2d e obs) (replicate N (0, 0)) 1 g
                    = Inr (Walk w, g')
                  \<and> length w = N \<and> distinct w))
   \<and> (1 \<le> M \<and> M \<le> d3 \<longrightarrow>
      (\<exists>h'. avoid_walk_limited d3 (possible_steps_3d mx obs3) (replicate M (0, 0, 0)) 1 h
               = Inr (DeadEnd, h'))
      \<or> (\<exists>w h'. avoid_walk_limited d3 (possible_steps_3d mx obs3) (replicate M (0, 0, 0)) 1 h
                    = Inr (Walk w, h')
                  \<and> length w = M \<and> distinct w))
   \<and> (1 \<le> M \<longrightarrow>
      avoid_walk_limited d3 (possible_steps_3d mx obs3) (replicate M (0, 0, 0)) 1 h
        = Inl RecursionError
      \<or> (\<exists>h'. avoid_walk_limited d3 (possible_steps_3d mx obs3) (replicate M (0, 0, 0)) 1 h
                 = Inr (DeadEnd, h'))
      \<or> (\<exists>w h'. avoid_walk_limited d3 (possible_steps_3d mx obs3) (replicate M (0, 0, 0)) 1 h
                    = Inr (Walk w, h')
                  \<and> length w = M \<and> distinct w))
   \<and> (possible_steps_2d e obs steps i g = Inr (cands, g1) \<longrightarrow> length cands \<le> 4)
   \<and> (possible_steps_3d mx obs3 steps3 i3 h = Inr (cands3, h1) \<longrightarrow> length cands3 \<le> 6)
   \<and> (1 \<le> d \<longrightarrow>
        avoid_walk_limited d (possible_steps_2d (border_ring 1) obs) (replicate 50 (0, 0)) 1 g
          = Inr (DeadEnd, g))
   \<and> (1 \<le> d3 \<longrightarrow>
        avoid_walk_limited d3 (possible_steps_3d 1 obs3) (replicate 50 (0, 0, 0)) 1 h
          = Inr (DeadEnd, h))"
proof (intro conjI impI)
  assume a: "1 \<le> N \<and> N \<le> d"
  then have "avoid_walk_limited d (possible_steps_2d e obs) (replicate N (0, 0)) 1 g
      = avoid_walk (possible_steps_2d e obs) (replicate N (0, 0)) 1 g"
    by (intro limited_from_zeros) simp_all
  with search_2d_outcome[of N e obs g] a
  show "(\<exists>g'. avoid_walk_limited d (possible_steps_2d e obs) (replicate N (0, 0)) 1 g
               = Inr (DeadEnd, g'))
      \<or> (\<exists>w g'. avoid_walk_limited d (possible_steps_2d e obs) (replicate N (0, 0)) 1 g
                    = Inr (Walk w, g')
                  \<and> length w = N \<and> distinct w)"
    by (simp only:)
next
  assume a: "1 \<le> N"
  from limited_cases(1)[of d "possible_steps_2d e obs" "replicate N (0, 0)" 1 g]
    search_2d_outcome[OF a, of e obs g]
  show "avoid_walk_limited d (possible_steps_2d e obs) (replicate N (0, 0)) 1 g
        = Inl RecursionError
      \<or> (\<exists>g'. avoid_walk_limited d (possible_steps_2d e obs) (replicate N (0, 0)) 1 g
                 = Inr (DeadEnd, g'))
      \<or> (\<exists>w g'. avoid_walk_limited d (possible_steps_2d e obs) (replicate N (0, 0)) 1 g
                    = Inr (Walk w, g')
                  \<and> length w = N \<and> distinct w)"
    by (elim disjE) (simp_all only:, blast+)
next
  assume a: "1 \<le> M \<and> M \<le> d3"
  then have "avoid_walk_limited d3 (possible_steps_3d mx obs3) (replicate M (0, 0, 0)) 1 h
      = avoid_walk (possible_steps_3d mx obs3) (replicate M (0, 0, 0)) 1 h"
    by (intro limited_from_zeros) simp_all
  with search_3d_outcome[of M mx obs3 h] a
  show "(\<exists>h'. avoid_walk_limited d3 (possible_steps_3d mx obs3) (replicate M (0, 0, 0)) 1 h
               = Inr (DeadEnd, h'))
      \<or> (\<exists>w h'. avoid_walk_limited d3 (possible_steps_3d mx obs3) (replicate M (0, 0, 0)) 1 h
                    = Inr (Walk w, h')
                  \<and> length w = M \<and> distinct w)"
    by (simp only:)
next
  assume a: "1 \<le> M"
  from limited_cases(1)[of d3 "possible_steps_3d mx obs3" "replicate M (0, 0, 0)" 1 h]
    search_3d_outcome[OF a, of mx obs3 h]
  show "avoid_walk_limited d3 (possible_steps_3d mx obs3) (replicate M (0, 0, 0)) 1 h
        = Inl RecursionError
      \<or> (\<exists>h'. avoid_walk_limited d3 (possible_steps_3d mx obs3) (replicate M (0, 0, 0)) 1 h
                 = Inr (DeadEnd, h'))
      \<or> (\<exists>w h'. avoid_walk_limited d3 (possible_steps_3d mx obs3) (replicate M (0, 0, 0)) 1 h
                    = Inr (Walk w, h')
                  \<and> length w = M \<and> distinct w)"
    by (elim disjE) (simp_all only:, blast+)
next
  assume "possible_steps_2d e obs steps i g = Inr (cands, g1)"
  then show "length cands \<le> 4" by (rule possible_steps_2d_mem(2))
next
  assume "possible_steps_3d mx obs3 steps3 i3 h = Inr (cands3, h1)"
  then show "length cands3 \<le> 6" by (rule possible_steps_3d_mem(2))
next
  assume "1 \<le> d"
  then show "avoid_walk_limited d (possible_steps_2d (border_ring 1) obs) (replicate 50 (0, 0)) 1 g
          = Inr (DeadEnd, g)" by (rule dead_2d_limited)
next
  assume "1 \<le> d3"
  then show "avoid_walk_limited d3 (possible_steps_3d 1 obs3) (replicate 50 (0, 0, 0)) 1 h
          = Inr (DeadEnd, h)" by (rule dead_3d_limited)
qed

theorem search_returns_within_depth_witness:
  "((1::nat) \<le> 3 \<and> (3::nat) \<le> 3)
   \<and> avoid_walk_limited 3 (possible_steps_2d (border_ring 2) []) (replicate 3 (0, 0)) 1 (sconst 0)
     = Inr (Walk [(0, 0), (0, - 1), (- 1, - 1)], sconst 0)
   \<and> ((1::nat) \<le> 4 \<and> (4::nat) \<le> 4)
   \<and> avoid_walk_limited 4 (possible_steps_3d 2 []) (replicate 4 (0, 0, 0)) 1 (sconst 0)
     = Inr (Walk [(0, 0, 0), (0, 0, - 1), (0, - 1, - 1), (1, - 1, - 1)], sconst 0)
   \<and> avoid_walk_limited 3 (possible_steps_2d (border_ring 1) []) (replicate 50 (0, 0)) 1
       (sconst 0) = Inr (DeadEnd, sconst 0)
   \<and> avoid_walk_limited 4 (possible_steps_3d 1 []) (replicate 50 (0, 0, 0)) 1 (sconst 0)
       = Inr (DeadEnd, sconst 0)"
  using search_returns_within_depth[where N = 3 and d = 3 and e = "border_ring 2" and obs = "[]"
      and g = "sconst 0" and M = 4 and ?d3.0 = 4 and mx = 2 and ?obs3.0 = "[]" and h = "sconst 0"]
    search_returns_within_depth[where d = 3 and obs = "[]" and g = "sconst 0" and ?d3.0 = 4
      and ?obs3.0 = "[]" and h = "sconst 0"]
  by (simp only: run_2d_limited run_3d_limited) simp

end
